theory Spec2Isabelle
  imports Main "HOL-Library.Sublist"
begin

section \<open>Python strings\<close>

text \<open>
  A Python \<^verbatim>\<open>str\<close> is a sequence of Unicode code points, so a text is a list of
  natural numbers.  \<open>S\<close> turns an ASCII literal into such a text; the two characters
  outside ASCII that the source's constants contain are named below.
\<close>

type_synonym pystr = "nat list"

definition S :: "string \<Rightarrow> pystr" where
  "S cs = map of_char cs"

definition e_acute :: nat where
  "e_acute = 233"

definition en_dash :: nat where
  "en_dash = 8211"

text \<open>\<^verbatim>\<open>sep.join(parts)\<close>.\<close>

fun join :: "pystr \<Rightarrow> pystr list \<Rightarrow> pystr" where
  "join sep [] = []"
| "join sep [p] = p"
| "join sep (p # q # ps) = p @ sep @ join sep (q # ps)"

text \<open>The decimal digits of a non-negative integer, as \<^verbatim>\<open>f"{n}"\<close> writes them.\<close>

function str_nat :: "nat \<Rightarrow> pystr" where
  "str_nat n = (if n < 10 then [48 + n] else str_nat (n div 10) @ [48 + n mod 10])"
  by pat_completeness auto
termination
  by (relation "measure (\<lambda>n. n)") auto

declare str_nat.simps [simp del]

text \<open>Characters that cannot be written inside a literal.\<close>

definition newline :: nat where
  "newline = 10"

definition dquote :: nat where
  "dquote = 34"

definition apostrophe :: nat where
  "apostrophe = 39"

definition backslash :: nat where
  "backslash = 92"

abbreviation ch :: "char \<Rightarrow> nat" where
  "ch a \<equiv> of_char a"

text \<open>
  How a character is classified is decided by the Unicode tables of the Python that runs
  the code.  For ASCII the answer is the same in every version and is written out below.
  For every other code point it is read from \<open>unicode_db\<close>, a parameter of the model:
  \<open>u_space\<close> is \<^verbatim>\<open>str.isspace\<close>, \<open>u_decimal\<close> and \<open>u_alnum\<close> are
  \<^verbatim>\<open>str.isdecimal\<close> and \<^verbatim>\<open>str.isalnum\<close>, \<open>u_lower\<close> and \<open>u_cased\<close> are the
  lower-case form and the test for a cased character that \<^verbatim>\<open>re\<close> uses, and
  \<open>u_extra\<close> lists the further characters that \<^verbatim>\<open>re\<close> treats as equal to a
  lower-case character when it ignores case.
\<close>

record unicode_db =
  u_space :: "nat \<Rightarrow> bool"
  u_decimal :: "nat \<Rightarrow> bool"
  u_alnum :: "nat \<Rightarrow> bool"
  u_lower :: "nat \<Rightarrow> nat"
  u_cased :: "nat \<Rightarrow> bool"
  u_extra :: "nat \<Rightarrow> nat list"

definition is_ascii_digit :: "nat \<Rightarrow> bool" where
  "is_ascii_digit t = (48 \<le> t \<and> t \<le> 57)"

definition is_ascii_letter :: "nat \<Rightarrow> bool" where
  "is_ascii_letter t = ((65 \<le> t \<and> t \<le> 90) \<or> (97 \<le> t \<and> t \<le> 122))"

text \<open>\<^verbatim>\<open>str.isspace\<close>, which is also \<^verbatim>\<open>\s\<close>.\<close>

definition is_space :: "unicode_db \<Rightarrow> nat \<Rightarrow> bool" where
  "is_space U t = (if t < 128 then (9 \<le> t \<and> t \<le> 13) \<or> (28 \<le> t \<and> t \<le> 32) else u_space U t)"

text \<open>\<^verbatim>\<open>\d\<close>: a decimal digit.\<close>

definition is_digit :: "unicode_db \<Rightarrow> nat \<Rightarrow> bool" where
  "is_digit U t = (if t < 128 then is_ascii_digit t else u_decimal U t)"

text \<open>\<^verbatim>\<open>\w\<close>: an alphanumeric character or the underscore.\<close>

definition is_word :: "unicode_db \<Rightarrow> nat \<Rightarrow> bool" where
  "is_word U t =
     (if t < 128 then is_ascii_digit t \<or> is_ascii_letter t \<or> t = 95 else u_alnum U t)"

definition lower :: "unicode_db \<Rightarrow> nat \<Rightarrow> nat" where
  "lower U t = (if t < 128 then (if 65 \<le> t \<and> t \<le> 90 then t + 32 else t) else u_lower U t)"

definition is_cased :: "unicode_db \<Rightarrow> nat \<Rightarrow> bool" where
  "is_cased U t = (if t < 128 then is_ascii_letter t else u_cased U t)"

text \<open>
  The characters that \<^verbatim>\<open>re\<close> adds to a lower-case character when it ignores case:
  the dotless i for \<^verbatim>\<open>i\<close> and the long s for \<^verbatim>\<open>s\<close>, nothing for the rest of ASCII.
\<close>

definition extra_cases :: "unicode_db \<Rightarrow> nat \<Rightarrow> nat list" where
  "extra_cases U lo =
     (if lo < 128 then (if lo = 105 then [305] else if lo = 115 then [383] else [])
      else u_extra U lo)"

text \<open>\<^verbatim>\<open>s.strip()\<close>.\<close>

definition strip :: "unicode_db \<Rightarrow> pystr \<Rightarrow> pystr" where
  "strip U s = rev (dropWhile (is_space U) (rev (dropWhile (is_space U) s)))"

text \<open>\<^verbatim>\<open>s.replace(old, new)\<close> for a non-empty \<open>old\<close>: every occurrence, left to right.\<close>

fun replace_all :: "pystr \<Rightarrow> pystr \<Rightarrow> pystr \<Rightarrow> pystr" where
  "replace_all old new [] = []"
| "replace_all old new (t # ts) =
     (if old \<noteq> [] \<and> prefix old (t # ts)
      then new @ replace_all old new (drop (length old) (t # ts))
      else t # replace_all old new ts)"

section \<open>Python's re module\<close>

text \<open>
  The part of the regular expression language that the patterns of the source use.
  A pattern is a term of \<open>regex\<close> written after its text: \<open>Lit\<close> a character, \<open>Cls\<close>
  one of \<^verbatim>\<open>\s \d \w\<close>, \<open>Set\<close> and \<open>NSet\<close> the bracket expressions \<^verbatim>\<open>[...]\<close> and
  \<^verbatim>\<open>[^...]\<close>, \<open>Dot\<close> the full stop, \<open>Star\<close>, \<open>Plus\<close>, \<open>Opt\<close> the greedy
  \<^verbatim>\<open>* + ?\<close>, \<open>LazyStar\<close> and \<open>LazyPlus\<close> the lazy \<^verbatim>\<open>*? +?\<close>, \<open>Rep n\<close> the count
  \<^verbatim>\<open>{n}\<close>, \<open>Grp n\<close> the \<open>n\<close>-th capturing group, \<open>Look\<close> the lookahead \<^verbatim>\<open>(?=...)\<close> and
  \<open>Eos\<close> the anchor \<^verbatim>\<open>$\<close> (no pattern sets \<^verbatim>\<open>re.MULTILINE\<close>).
\<close>

datatype py_error = Template_error | Attribute_error | Extraction_error

record re_flags =
  ignorecase :: bool
  dotall :: bool
  unicode :: unicode_db

datatype cclass = Chr nat | Rng nat nat | Space | Digit | Word

datatype regex =
    Lit nat | Cls cclass | Set "cclass list" | NSet "cclass list" | Dot | Eps
  | Seq regex regex | Alt regex regex
  | Star regex | Plus regex | Opt regex | LazyStar regex | LazyPlus regex | Rep nat regex
  | Grp nat regex | Look regex | Eos

text \<open>
  One item of a bracket expression, tested on the character \<open>t\<close>.  When case is
  ignored, Python lower-cases the characters of the expression when it compiles it (and
  adds their extra cases).
\<close>

fun in_item :: "unicode_db \<Rightarrow> bool \<Rightarrow> cclass \<Rightarrow> nat \<Rightarrow> bool" where
  "in_item U ic (Chr a) t =
     (if ic then t = lower U a \<or> t \<in> set (extra_cases U (lower U a)) else t = a)"
| "in_item U ic (Rng a b) t =
     (if ic then list_ex (\<lambda>x. t = lower U x \<or> t \<in> set (extra_cases U (lower U x))) [a ..< b + 1]
      else a \<le> t \<and> t \<le> b)"
| "in_item U ic Space t = is_space U t"
| "in_item U ic Digit t = is_digit U t"
| "in_item U ic Word t = is_word U t"

fun item_cased :: "unicode_db \<Rightarrow> cclass \<Rightarrow> bool" where
  "item_cased U (Chr a) = is_cased U a"
| "item_cased U (Rng a b) = list_ex (is_cased U) [a ..< b + 1]"
| "item_cased U x = False"

text \<open>
  A literal character of the pattern.  Case is ignored only for a cased character:
  then the lower-case form of the text character is compared.
\<close>

definition lit_match :: "re_flags \<Rightarrow> nat \<Rightarrow> nat \<Rightarrow> bool" where
  "lit_match fl a t =
     (if ignorecase fl \<and> is_cased (unicode fl) a
      then lower (unicode fl) t = lower (unicode fl) a \<or>
           lower (unicode fl) t \<in> set (extra_cases (unicode fl) (lower (unicode fl) a))
      else t = a)"

text \<open>
  A bracket expression.  When case is ignored and the expression holds a cased character,
  the text character is lower-cased before it is tested.
\<close>

definition set_match :: "re_flags \<Rightarrow> cclass list \<Rightarrow> nat \<Rightarrow> bool" where
  "set_match fl xs t =
     list_ex (\<lambda>x. in_item (unicode fl) (ignorecase fl) x
                    (if ignorecase fl \<and> list_ex (item_cased (unicode fl)) xs
                     then lower (unicode fl) t else t))
             xs"

text \<open>
  The matcher is a backtracking one, as Python's is.  It reads the rest of the text
  \<open>s\<close> with the groups captured so far, and hands every way of matching, in the order
  Python tries them, to the continuation \<open>k\<close> until the continuation accepts one.  The
  result is the text left after the whole match, with its groups.
\<close>

type_synonym caps = "nat \<rightharpoonup> pystr"
type_synonym result = "(pystr \<times> caps) option"
type_synonym cont = "pystr \<Rightarrow> caps \<Rightarrow> result"
type_synonym matcher = "pystr \<Rightarrow> caps \<Rightarrow> cont \<Rightarrow> result"

definition one :: "(nat \<Rightarrow> bool) \<Rightarrow> matcher" where
  "one p s c k = (case s of [] \<Rightarrow> None | t # ts \<Rightarrow> if p t then k ts c else None)"

text \<open>
  Greedy and lazy repetition.  A round that consumes nothing is not repeated (Python
  stops such a loop too; no pattern of the source has a repeated part that can match the
  empty text).
\<close>

function star :: "matcher \<Rightarrow> matcher" where
  "star f s c k =
     (case f s c (\<lambda>s' c'. if length s' < length s then star f s' c' k else None) of
        Some r \<Rightarrow> Some r
      | None \<Rightarrow> k s c)"
  by pat_completeness auto
termination
  by (relation "measure (\<lambda>(f, s, c, k). length s)") auto

function lstar :: "matcher \<Rightarrow> matcher" where
  "lstar f s c k =
     (case k s c of
        Some r \<Rightarrow> Some r
      | None \<Rightarrow> f s c (\<lambda>s' c'. if length s' < length s then lstar f s' c' k else None))"
  by pat_completeness auto
termination
  by (relation "measure (\<lambda>(f, s, c, k). length s)") auto

declare star.simps [simp del] lstar.simps [simp del]

primrec rep :: "nat \<Rightarrow> matcher \<Rightarrow> matcher" where
  "rep 0 f s c k = k s c"
| "rep (Suc n) f s c k = f s c (\<lambda>s' c'. rep n f s' c' k)"

primrec rm :: "regex \<Rightarrow> re_flags \<Rightarrow> matcher" where
  "rm (Lit a) fl s c k = one (lit_match fl a) s c k"
| "rm (Cls x) fl s c k = one (in_item (unicode fl) False x) s c k"
| "rm (Set xs) fl s c k = one (set_match fl xs) s c k"
| "rm (NSet xs) fl s c k = one (\<lambda>t. \<not> set_match fl xs t) s c k"
| "rm Dot fl s c k = one (\<lambda>t. dotall fl \<or> t \<noteq> 10) s c k"
| "rm Eps fl s c k = k s c"
| "rm (Seq a b) fl s c k = rm a fl s c (\<lambda>s' c'. rm b fl s' c' k)"
| "rm (Alt a b) fl s c k = (case rm a fl s c k of Some r \<Rightarrow> Some r | None \<Rightarrow> rm b fl s c k)"
| "rm (Star a) fl s c k = star (rm a fl) s c k"
| "rm (Plus a) fl s c k = rm a fl s c (\<lambda>s' c'. star (rm a fl) s' c' k)"
| "rm (Opt a) fl s c k = (case rm a fl s c k of Some r \<Rightarrow> Some r | None \<Rightarrow> k s c)"
| "rm (LazyStar a) fl s c k = lstar (rm a fl) s c k"
| "rm (LazyPlus a) fl s c k = rm a fl s c (\<lambda>s' c'. lstar (rm a fl) s' c' k)"
| "rm (Rep n a) fl s c k = rep n (rm a fl) s c k"
| "rm (Grp n a) fl s c k =
     rm a fl s c (\<lambda>s' c'. k s' (c'(n \<mapsto> take (length s - length s') s)))"
| "rm (Look a) fl s c k =
     (case rm a fl s c (\<lambda>s' c'. Some (s', c')) of None \<Rightarrow> None | Some (_, c') \<Rightarrow> k s c')"
| "rm Eos fl s c k = (if s = [] \<or> s = [10] then k s c else None)"

text \<open>A run of literal characters, and a sequence of patterns.\<close>

definition lits :: "string \<Rightarrow> regex" where
  "lits cs = foldr (\<lambda>a r. Seq (Lit (of_char a)) r) cs Eps"

definition seq :: "regex list \<Rightarrow> regex" where
  "seq rs = foldr Seq rs Eps"

text \<open>The groups that take part in every match of a pattern.\<close>

fun must :: "regex \<Rightarrow> nat set" where
  "must (Seq a b) = must a \<union> must b"
| "must (Alt a b) = must a \<inter> must b"
| "must (Plus a) = must a"
| "must (LazyPlus a) = must a"
| "must (Rep n a) = (if n = 0 then {} else must a)"
| "must (Grp n a) = insert n (must a)"
| "must (Look a) = must a"
| "must r = {}"

text \<open>
  The match object: \<^verbatim>\<open>m.group(0)\<close> and the numbered groups; \<^verbatim>\<open>m.group(i)\<close> is
  \<^verbatim>\<open>None\<close> for a group that took no part in the match.
\<close>

record pymatch =
  whole :: pystr
  groups :: caps

text \<open>
  One attempt at the start of \<open>s\<close>.  With \<open>adv\<close> set an empty match is refused, as
  Python refuses one at the place where the previous match of \<^verbatim>\<open>re.sub\<close> ended empty.
\<close>

definition match_here :: "regex \<Rightarrow> re_flags \<Rightarrow> bool \<Rightarrow> pystr \<Rightarrow> result" where
  "match_here r fl adv s =
     rm r fl s Map.empty
       (\<lambda>s' c'. if adv \<and> length s \<le> length s' then None else Some (s', c'))"

text \<open>
  The leftmost match in \<open>s\<close>: the text before it, the match and the text after it.
  \<open>pre\<close> collects the text already passed.
\<close>

fun search_from ::
  "regex \<Rightarrow> re_flags \<Rightarrow> bool \<Rightarrow> pystr \<Rightarrow> pystr \<Rightarrow> (pystr \<times> pymatch \<times> pystr) option" where
  "search_from r fl adv pre s =
     (case match_here r fl adv s of
        Some (rest, c) \<Rightarrow>
          Some (pre, \<lparr>whole = take (length s - length rest) s, groups = c\<rparr>, rest)
      | None \<Rightarrow>
          (case s of [] \<Rightarrow> None | t # ts \<Rightarrow> search_from r fl False (pre @ [t]) ts))"

declare search_from.simps [simp del]

text \<open>\<^verbatim>\<open>re.search(pattern, s, flags)\<close>.\<close>

definition re_search :: "regex \<Rightarrow> re_flags \<Rightarrow> pystr \<Rightarrow> (pystr \<times> pymatch \<times> pystr) option" where
  "re_search r fl s = search_from r fl False [] s"

text \<open>
  What the matcher hands to its continuation: a suffix of the text it was given, and
  groups that include those captured before and those that every match of the pattern
  captures.
\<close>

lemma one_sound:
  "one p s c k = Some res \<Longrightarrow> \<exists>s' c'. k s' c' = Some res \<and> suffix s' s \<and> dom c \<subseteq> dom c'"
  by (auto simp: one_def suffix_Cons split: list.splits if_splits)

lemma star_sound:
  assumes f: "\<And>s c k res. f s c k = Some res \<Longrightarrow>
                \<exists>s' c'. k s' c' = Some res \<and> suffix s' s \<and> dom c \<subseteq> dom c'"
  shows "star f s c k = Some res \<Longrightarrow>
           \<exists>s' c'. k s' c' = Some res \<and> suffix s' s \<and> dom c \<subseteq> dom c'"
proof (induction "length s" arbitrary: s c rule: less_induct)
  case less
  let ?K = "\<lambda>s' c'. if length s' < length s then star f s' c' k else None"
  show ?case
  proof (cases "f s c ?K")
    case None
    with less.prems have "k s c = Some res"
      by (simp add: star.simps [of f s c k])
    then show ?thesis by blast
  next
    case (Some r)
    with less.prems have "f s c ?K = Some res"
      by (simp add: star.simps [of f s c k])
    from f [OF this] obtain s1 c1 where
      K: "?K s1 c1 = Some res" and s1: "suffix s1 s" and c1: "dom c \<subseteq> dom c1"
      by blast
    from K have short: "length s1 < length s" and again: "star f s1 c1 k = Some res"
      by (auto split: if_splits)
    from less.hyps [OF short again] obtain s' c' where
      "k s' c' = Some res" "suffix s' s1" "dom c1 \<subseteq> dom c'"
      by blast
    with s1 c1 show ?thesis
      by (meson suffix_order.trans subset_trans)
  qed
qed

lemma lstar_sound:
  assumes f: "\<And>s c k res. f s c k = Some res \<Longrightarrow>
                \<exists>s' c'. k s' c' = Some res \<and> suffix s' s \<and> dom c \<subseteq> dom c'"
  shows "lstar f s c k = Some res \<Longrightarrow>
           \<exists>s' c'. k s' c' = Some res \<and> suffix s' s \<and> dom c \<subseteq> dom c'"
proof (induction "length s" arbitrary: s c rule: less_induct)
  case less
  let ?K = "\<lambda>s' c'. if length s' < length s then lstar f s' c' k else None"
  show ?case
  proof (cases "k s c")
    case (Some r)
    with less.prems have "k s c = Some res"
      by (simp add: lstar.simps [of f s c k])
    then show ?thesis by blast
  next
    case None
    with less.prems have "f s c ?K = Some res"
      by (simp add: lstar.simps [of f s c k])
    from f [OF this] obtain s1 c1 where
      K: "?K s1 c1 = Some res" and s1: "suffix s1 s" and c1: "dom c \<subseteq> dom c1"
      by blast
    from K have short: "length s1 < length s" and again: "lstar f s1 c1 k = Some res"
      by (auto split: if_splits)
    from less.hyps [OF short again] obtain s' c' where
      "k s' c' = Some res" "suffix s' s1" "dom c1 \<subseteq> dom c'"
      by blast
    with s1 c1 show ?thesis
      by (meson suffix_order.trans subset_trans)
  qed
qed

lemma rep_sound:
  assumes f: "\<And>s c k res. f s c k = Some res \<Longrightarrow>
                \<exists>s' c'. k s' c' = Some res \<and> suffix s' s \<and> dom c \<union> g \<subseteq> dom c'"
  shows "rep n f s c k = Some res \<Longrightarrow>
           \<exists>s' c'. k s' c' = Some res \<and> suffix s' s \<and> dom c \<union> (if n = 0 then {} else g) \<subseteq> dom c'"
proof (induction n arbitrary: s c)
  case 0
  then show ?case by auto
next
  case (Suc n)
  from Suc.prems have "f s c (\<lambda>s' c'. rep n f s' c' k) = Some res"
    by simp
  from f [OF this] obtain s1 c1 where
    r: "rep n f s1 c1 k = Some res" and s1: "suffix s1 s" and c1: "dom c \<union> g \<subseteq> dom c1"
    by blast
  from Suc.IH [OF r] obtain s' c' where
    k: "k s' c' = Some res" and s': "suffix s' s1" and c': "dom c1 \<subseteq> dom c'"
    by auto
  from s' s1 have "suffix s' s"
    by (rule suffix_order.trans)
  moreover from c1 c' have "dom c \<union> g \<subseteq> dom c'"
    by blast
  then have "dom c \<union> (if Suc n = 0 then {} else g) \<subseteq> dom c'"
    by simp
  ultimately show ?case
    using k by blast
qed

lemma rm_sound:
  "rm r fl s c k = Some res \<Longrightarrow>
     \<exists>s' c'. k s' c' = Some res \<and> suffix s' s \<and> dom c \<union> must r \<subseteq> dom c'"
proof (induction r arbitrary: s c k res)
  case (Seq a b)
  from Seq.prems have "rm a fl s c (\<lambda>s' c'. rm b fl s' c' k) = Some res" by simp
  from Seq.IH(1) [OF this] obtain s1 c1 where
    b: "rm b fl s1 c1 k = Some res" and s1: "suffix s1 s" and c1: "dom c \<union> must a \<subseteq> dom c1"
    by blast
  from Seq.IH(2) [OF b] obtain s' c' where
    k: "k s' c' = Some res" and s': "suffix s' s1" and c': "dom c1 \<union> must b \<subseteq> dom c'"
    by blast
  from s' s1 have "suffix s' s"
    by (rule suffix_order.trans)
  moreover from c1 c' have "dom c \<union> must (Seq a b) \<subseteq> dom c'"
    by (simp only: must.simps) blast
  ultimately show ?case
    using k by blast
next
  case (Alt a b)
  from Alt.prems have "rm a fl s c k = Some res \<or> rm b fl s c k = Some res"
    by (simp split: option.splits)
  then show ?case
  proof
    assume "rm a fl s c k = Some res"
    from Alt.IH(1) [OF this] obtain s' c' where
      "k s' c' = Some res" "suffix s' s" "dom c \<union> must a \<subseteq> dom c'"
      by blast
    moreover from this have "dom c \<union> must (Alt a b) \<subseteq> dom c'"
      by (simp only: must.simps) blast
    ultimately show ?thesis by blast
  next
    assume "rm b fl s c k = Some res"
    from Alt.IH(2) [OF this] obtain s' c' where
      "k s' c' = Some res" "suffix s' s" "dom c \<union> must b \<subseteq> dom c'"
      by blast
    moreover from this have "dom c \<union> must (Alt a b) \<subseteq> dom c'"
      by (simp only: must.simps) blast
    ultimately show ?thesis by blast
  qed
next
  case (Star a)
  have "\<exists>s' c'. k s' c' = Some res \<and> suffix s' s \<and> dom c \<subseteq> dom c'"
  proof (rule star_sound)
    show "star (rm a fl) s c k = Some res" using Star.prems by simp
  next
    fix s c k res assume "rm a fl s c k = Some res"
    from Star.IH [OF this] show "\<exists>s' c'. k s' c' = Some res \<and> suffix s' s \<and> dom c \<subseteq> dom c'"
      by blast
  qed
  then show ?case by simp
next
  case (Plus a)
  have f: "\<And>s c k res. rm a fl s c k = Some res \<Longrightarrow>
             \<exists>s' c'. k s' c' = Some res \<and> suffix s' s \<and> dom c \<subseteq> dom c'"
    using Plus.IH by blast
  from Plus.prems have "rm a fl s c (\<lambda>s' c'. star (rm a fl) s' c' k) = Some res" by simp
  from Plus.IH [OF this] obtain s1 c1 where
    b: "star (rm a fl) s1 c1 k = Some res" and s1: "suffix s1 s" and c1: "dom c \<union> must a \<subseteq> dom c1"
    by blast
  from star_sound [of "rm a fl", OF f b] obtain s' c' where
    k: "k s' c' = Some res" and s': "suffix s' s1" and c': "dom c1 \<subseteq> dom c'"
    by blast
  from s' s1 have "suffix s' s"
    by (rule suffix_order.trans)
  moreover from c1 c' have "dom c \<union> must a \<subseteq> dom c'"
    by blast
  then have "dom c \<union> must (Plus a) \<subseteq> dom c'"
    by simp
  ultimately show ?case
    using k by blast
next
  case (Opt a)
  from Opt.prems have "rm a fl s c k = Some res \<or> k s c = Some res"
    by (simp split: option.splits)
  then show ?case
  proof
    assume "rm a fl s c k = Some res"
    from Opt.IH [OF this] obtain s' c' where
      "k s' c' = Some res" "suffix s' s" "dom c \<union> must a \<subseteq> dom c'"
      by blast
    then show ?thesis by auto
  next
    assume "k s c = Some res"
    then show ?thesis by auto
  qed
next
  case (LazyStar a)
  have "\<exists>s' c'. k s' c' = Some res \<and> suffix s' s \<and> dom c \<subseteq> dom c'"
  proof (rule lstar_sound)
    show "lstar (rm a fl) s c k = Some res" using LazyStar.prems by simp
  next
    fix s c k res assume "rm a fl s c k = Some res"
    from LazyStar.IH [OF this] show "\<exists>s' c'. k s' c' = Some res \<and> suffix s' s \<and> dom c \<subseteq> dom c'"
      by blast
  qed
  then show ?case by simp
next
  case (LazyPlus a)
  have f: "\<And>s c k res. rm a fl s c k = Some res \<Longrightarrow>
             \<exists>s' c'. k s' c' = Some res \<and> suffix s' s \<and> dom c \<subseteq> dom c'"
    using LazyPlus.IH by blast
  from LazyPlus.prems have "rm a fl s c (\<lambda>s' c'. lstar (rm a fl) s' c' k) = Some res" by simp
  from LazyPlus.IH [OF this] obtain s1 c1 where
    b: "lstar (rm a fl) s1 c1 k = Some res" and s1: "suffix s1 s" and c1: "dom c \<union> must a \<subseteq> dom c1"
    by blast
  from lstar_sound [of "rm a fl", OF f b] obtain s' c' where
    k: "k s' c' = Some res" and s': "suffix s' s1" and c': "dom c1 \<subseteq> dom c'"
    by blast
  from s' s1 have "suffix s' s"
    by (rule suffix_order.trans)
  moreover from c1 c' have "dom c \<union> must a \<subseteq> dom c'"
    by blast
  then have "dom c \<union> must (LazyPlus a) \<subseteq> dom c'"
    by simp
  ultimately show ?case
    using k by blast
next
  case (Rep n a)
  have "\<exists>s' c'. k s' c' = Some res \<and> suffix s' s \<and>
          dom c \<union> (if n = 0 then {} else must a) \<subseteq> dom c'"
  proof (rule rep_sound)
    show "rep n (rm a fl) s c k = Some res" using Rep.prems by simp
  next
    fix s c k res assume "rm a fl s c k = Some res"
    from Rep.IH [OF this]
    show "\<exists>s' c'. k s' c' = Some res \<and> suffix s' s \<and> dom c \<union> must a \<subseteq> dom c'" .
  qed
  then show ?case by simp
next
  case (Grp n a)
  from Grp.prems
  have "rm a fl s c (\<lambda>s' c'. k s' (c'(n \<mapsto> take (length s - length s') s))) = Some res"
    by simp
  from Grp.IH [OF this] obtain s1 c1 where
    k: "k s1 (c1(n \<mapsto> take (length s - length s1) s)) = Some res" and s1: "suffix s1 s"
    and c1: "dom c \<union> must a \<subseteq> dom c1"
    by blast
  from c1 have "dom c \<union> must (Grp n a) \<subseteq> dom (c1(n \<mapsto> take (length s - length s1) s))"
    by (simp only: must.simps dom_fun_upd option.simps if_False) blast
  with k s1 show ?case
    by blast
next
  case (Look a)
  from Look.prems obtain x c1 where
    a: "rm a fl s c (\<lambda>s' c'. Some (s', c')) = Some (x, c1)" and k: "k s c1 = Some res"
    by (auto split: option.splits)
  from Look.IH [OF a] have "dom c \<union> must a \<subseteq> dom c1"
    by auto
  with k show ?case
    by (intro exI [of _ s] exI [of _ c1]) auto
next
  case (Lit a)
  then have "one (lit_match fl a) s c k = Some res" by simp
  from one_sound [OF this] show ?case by simp
next
  case (Cls x)
  then have "one (in_item (unicode fl) False x) s c k = Some res" by simp
  from one_sound [OF this] show ?case by simp
next
  case (Set xs)
  then have "one (set_match fl xs) s c k = Some res" by simp
  from one_sound [OF this] show ?case by simp
next
  case (NSet xs)
  then have "one (\<lambda>t. \<not> set_match fl xs t) s c k = Some res" by simp
  from one_sound [OF this] show ?case by simp
next
  case Dot
  then have "one (\<lambda>t. dotall fl \<or> t \<noteq> 10) s c k = Some res" by simp
  from one_sound [OF this] show ?case by simp
next
  case Eps
  then have "k s c = Some res" by simp
  then show ?case by auto
next
  case Eos
  then have "k s c = Some res" by (simp split: if_splits)
  then show ?case by auto
qed

lemma take_suffix: "suffix rest s \<Longrightarrow> take (length s - length rest) s @ rest = s"
  by (auto simp: suffix_def)

lemma match_here_sound:
  assumes "match_here r fl adv s = Some (rest, c)"
  shows "suffix rest s \<and> must r \<subseteq> dom c \<and> (adv \<longrightarrow> length rest < length s)"
proof -
  let ?k = "\<lambda>s' c'. if adv \<and> length s \<le> length s' then None else Some (s', c')"
  from assms have "rm r fl s Map.empty ?k = Some (rest, c)"
    by (simp add: match_here_def)
  from rm_sound [OF this] obtain s' c' where
    k: "?k s' c' = Some (rest, c)" and s': "suffix s' s" and c': "dom Map.empty \<union> must r \<subseteq> dom c'"
    by blast
  from k have "s' = rest" "c' = c" "\<not> (adv \<and> length s \<le> length rest)"
    by (auto split: if_splits)
  with s' c' show ?thesis
    by auto
qed

lemma search_from_sound:
  "search_from r fl adv pre s = Some (p, m, post) \<Longrightarrow>
     \<exists>mid. p = pre @ mid \<and> s = mid @ whole m @ post \<and> must r \<subseteq> dom (groups m) \<and>
           (adv \<and> mid = [] \<longrightarrow> whole m \<noteq> [])"
proof (induction r fl adv pre s rule: search_from.induct)
  case (1 r fl adv pre s)
  show ?case
  proof (cases "match_here r fl adv s")
    case (Some res)
    obtain rest c where res: "res = (rest, c)" by (cases res)
    from Some res "1.prems" have eq: "p = pre" "m = \<lparr>whole = take (length s - length rest) s, groups = c\<rparr>"
      "post = rest"
      by (auto simp add: search_from.simps [of r fl adv pre s])
    from match_here_sound [OF Some [unfolded res]]
    have suf: "suffix rest s" and grp: "must r \<subseteq> dom c" and adv: "adv \<longrightarrow> length rest < length s"
      by blast+
    from take_suffix [OF suf] have "s = [] @ whole m @ post"
      by (simp add: eq)
    moreover from adv suf have "adv \<longrightarrow> whole m \<noteq> []"
      by (auto simp: eq)
    ultimately show ?thesis
      using grp eq by (intro exI [of _ "[]"]) simp
  next
    case None
    show ?thesis
    proof (cases s)
      case Nil
      with None "1.prems" show ?thesis
        by (simp add: search_from.simps [of r fl adv pre "[]"])
    next
      case (Cons t ts)
      with None "1.prems" have "search_from r fl False (pre @ [t]) ts = Some (p, m, post)"
        by (simp add: search_from.simps [of r fl adv pre "t # ts"])
      from "1.IH" [OF None Cons this] obtain mid where
        "p = (pre @ [t]) @ mid" "ts = mid @ whole m @ post" "must r \<subseteq> dom (groups m)"
        by blast
      then show ?thesis
        using Cons by (intro exI [of _ "t # mid"]) simp
    qed
  qed
qed

lemma search_from_measure:
  assumes "search_from r fl adv [] s = Some (pre, m, post)"
  shows "2 * length post + (if whole m = [] then 0 else 1) < 2 * length s + (if adv then 0 else 1)"
proof -
  from search_from_sound [OF assms]
  obtain mid where s: "s = mid @ whole m @ post" and a: "adv \<and> mid = [] \<longrightarrow> whole m \<noteq> []"
    by auto
  have len: "length s = length mid + length (whole m) + length post"
    by (simp add: s)
  have b: "whole m = [] \<or> 1 \<le> length (whole m)"
    by (cases "whole m") auto
  have c: "mid = [] \<or> 1 \<le> length mid"
    by (cases mid) auto
  show ?thesis
    using a b c by (cases adv; cases "whole m = []"; cases "mid = []") (simp_all add: len)
qed

text \<open>The least number of characters that a match of a pattern consumes.\<close>

fun minlen :: "regex \<Rightarrow> nat" where
  "minlen (Lit a) = 1"
| "minlen (Cls x) = 1"
| "minlen (Set xs) = 1"
| "minlen (NSet xs) = 1"
| "minlen Dot = 1"
| "minlen (Seq a b) = minlen a + minlen b"
| "minlen (Alt a b) = min (minlen a) (minlen b)"
| "minlen (Plus a) = minlen a"
| "minlen (LazyPlus a) = minlen a"
| "minlen (Rep n a) = n * minlen a"
| "minlen (Grp n a) = minlen a"
| "minlen r = 0"

lemma one_minlen:
  "one p s c k = Some res \<Longrightarrow> \<exists>s' c'. k s' c' = Some res \<and> length s' + 1 \<le> length s"
  by (auto simp: one_def split: list.splits if_splits)

lemma rep_minlen:
  assumes f: "\<And>s c k res. f s c k = Some res \<Longrightarrow>
                \<exists>s' c'. k s' c' = Some res \<and> length s' + n0 \<le> length s"
  shows "rep n f s c k = Some res \<Longrightarrow>
           \<exists>s' c'. k s' c' = Some res \<and> length s' + n * n0 \<le> length s"
proof (induction n arbitrary: s c)
  case 0
  then show ?case by auto
next
  case (Suc n)
  from Suc.prems have "f s c (\<lambda>s' c'. rep n f s' c' k) = Some res"
    by simp
  from f [OF this] obtain s1 c1 where
    r: "rep n f s1 c1 k = Some res" and s1: "length s1 + n0 \<le> length s"
    by blast
  from Suc.IH [OF r] obtain s' c' where
    k: "k s' c' = Some res" and s': "length s' + n * n0 \<le> length s1"
    by blast
  from s1 s' have "length s' + Suc n * n0 \<le> length s"
    by simp
  with k show ?case
    by blast
qed

lemma rm_length:
  "rm r fl s c k = Some res \<Longrightarrow> \<exists>s' c'. k s' c' = Some res \<and> length s' \<le> length s"
  by (drule rm_sound) (blast dest: suffix_length_le)

lemma rm_minlen:
  "rm r fl s c k = Some res \<Longrightarrow>
     \<exists>s' c'. k s' c' = Some res \<and> length s' + minlen r \<le> length s"
proof (induction r arbitrary: s c k res)
  case (Seq a b)
  from Seq.prems have "rm a fl s c (\<lambda>s' c'. rm b fl s' c' k) = Some res" by simp
  from Seq.IH(1) [OF this] obtain s1 c1 where
    b: "rm b fl s1 c1 k = Some res" and s1: "length s1 + minlen a \<le> length s"
    by blast
  from Seq.IH(2) [OF b] obtain s' c' where
    k: "k s' c' = Some res" and s': "length s' + minlen b \<le> length s1"
    by blast
  from s1 s' have "length s' + minlen (Seq a b) \<le> length s"
    by simp
  with k show ?case by blast
next
  case (Alt a b)
  from Alt.prems have "rm a fl s c k = Some res \<or> rm b fl s c k = Some res"
    by (simp split: option.splits)
  then show ?case
  proof
    assume "rm a fl s c k = Some res"
    from Alt.IH(1) [OF this] obtain s' c' where
      k: "k s' c' = Some res" and "length s' + minlen a \<le> length s"
      by blast
    then have "length s' + minlen (Alt a b) \<le> length s"
      by simp
    with k show ?thesis by blast
  next
    assume "rm b fl s c k = Some res"
    from Alt.IH(2) [OF this] obtain s' c' where
      k: "k s' c' = Some res" and "length s' + minlen b \<le> length s"
      by blast
    then have "length s' + minlen (Alt a b) \<le> length s"
      by simp
    with k show ?thesis by blast
  qed
next
  case (Plus a)
  from Plus.prems have "rm a fl s c (\<lambda>s' c'. star (rm a fl) s' c' k) = Some res" by simp
  from Plus.IH [OF this] obtain s1 c1 where
    b: "star (rm a fl) s1 c1 k = Some res" and s1: "length s1 + minlen a \<le> length s"
    by blast
  have "rm (Star a) fl s1 c1 k = Some res"
    using b by simp
  from rm_length [OF this] obtain s' c' where
    k: "k s' c' = Some res" and s': "length s' \<le> length s1"
    by blast
  from s1 s' have "length s' + minlen (Plus a) \<le> length s"
    by simp
  with k show ?case by blast
next
  case (LazyPlus a)
  from LazyPlus.prems have "rm a fl s c (\<lambda>s' c'. lstar (rm a fl) s' c' k) = Some res" by simp
  from LazyPlus.IH [OF this] obtain s1 c1 where
    b: "lstar (rm a fl) s1 c1 k = Some res" and s1: "length s1 + minlen a \<le> length s"
    by blast
  have "rm (LazyStar a) fl s1 c1 k = Some res"
    using b by simp
  from rm_length [OF this] obtain s' c' where
    k: "k s' c' = Some res" and s': "length s' \<le> length s1"
    by blast
  from s1 s' have "length s' + minlen (LazyPlus a) \<le> length s"
    by simp
  with k show ?case by blast
next
  case (Rep n a)
  have "\<exists>s' c'. k s' c' = Some res \<and> length s' + n * minlen a \<le> length s"
  proof (rule rep_minlen)
    show "rep n (rm a fl) s c k = Some res" using Rep.prems by simp
  next
    fix s c k res assume "rm a fl s c k = Some res"
    from Rep.IH [OF this]
    show "\<exists>s' c'. k s' c' = Some res \<and> length s' + minlen a \<le> length s" .
  qed
  then show ?case by simp
next
  case (Grp n a)
  from Grp.prems
  have "rm a fl s c (\<lambda>s' c'. k s' (c'(n \<mapsto> take (length s - length s') s))) = Some res"
    by simp
  from Grp.IH [OF this] show ?case
    by auto
next
  case (Lit a)
  then have "one (lit_match fl a) s c k = Some res" by simp
  from one_minlen [OF this] show ?case by simp
next
  case (Cls x)
  then have "one (in_item (unicode fl) False x) s c k = Some res" by simp
  from one_minlen [OF this] show ?case by simp
next
  case (Set xs)
  then have "one (set_match fl xs) s c k = Some res" by simp
  from one_minlen [OF this] show ?case by simp
next
  case (NSet xs)
  then have "one (\<lambda>t. \<not> set_match fl xs t) s c k = Some res" by simp
  from one_minlen [OF this] show ?case by simp
next
  case Dot
  then have "one (\<lambda>t. dotall fl \<or> t \<noteq> 10) s c k = Some res" by simp
  from one_minlen [OF this] show ?case by simp
next
  case Eps
  from rm_length [OF Eps.prems] show ?case by simp
next
  case (Star a)
  from rm_length [OF Star.prems] show ?case by simp
next
  case (Opt a)
  from rm_length [OF Opt.prems] show ?case by simp
next
  case (LazyStar a)
  from rm_length [OF LazyStar.prems] show ?case by simp
next
  case (Look a)
  from rm_length [OF Look.prems] show ?case by simp
next
  case Eos
  from rm_length [OF Eos.prems] show ?case by simp
qed

lemma match_here_minlen:
  assumes "match_here r fl adv s = Some (rest, c)"
  shows "length rest + minlen r \<le> length s"
proof -
  let ?k = "\<lambda>s' c'. if adv \<and> length s \<le> length s' then None else Some (s', c')"
  from assms have "rm r fl s Map.empty ?k = Some (rest, c)"
    by (simp add: match_here_def)
  from rm_minlen [OF this] obtain s' c' where
    k: "?k s' c' = Some (rest, c)" and s': "length s' + minlen r \<le> length s"
    by blast
  from k have "s' = rest"
    by (auto split: if_splits)
  with s' show ?thesis
    by simp
qed

lemma search_from_nonempty:
  "search_from r fl adv pre s = Some (p, m, post) \<Longrightarrow> 0 < minlen r \<Longrightarrow> whole m \<noteq> []"
proof (induction r fl adv pre s rule: search_from.induct)
  case (1 r fl adv pre s)
  show ?case
  proof (cases "match_here r fl adv s")
    case (Some res)
    obtain rest c where res: "res = (rest, c)" by (cases res)
    from Some res "1.prems" have eq: "m = \<lparr>whole = take (length s - length rest) s, groups = c\<rparr>"
      by (auto simp add: search_from.simps [of r fl adv pre s])
    from match_here_minlen [OF Some [unfolded res]] "1.prems"(2)
    have "length rest < length s" by simp
    then show ?thesis
      by (auto simp: eq)
  next
    case None
    show ?thesis
    proof (cases s)
      case Nil
      with None "1.prems" show ?thesis
        by (simp add: search_from.simps [of r fl adv pre "[]"])
    next
      case (Cons t ts)
      with None "1.prems" have "search_from r fl False (pre @ [t]) ts = Some (p, m, post)"
        by (simp add: search_from.simps [of r fl adv pre "t # ts"])
      from "1.IH" [OF None Cons this "1.prems"(2)] show ?thesis .
    qed
  qed
qed

subsection \<open>\<^verbatim>\<open>re.sub\<close> with a function as replacement\<close>

text \<open>
  The loop of \<^verbatim>\<open>re.sub(pattern, f, s)\<close>: find the leftmost match in what is left of
  the text, call \<open>f\<close> on it, and go on after the match.  \<open>f\<close> receives the match and the
  state of the caller, which it may change, and returns the replacement or raises.  After
  an empty match the next one must not be empty at the same place (\<open>adv\<close>).
\<close>

function sub_loop ::
  "regex \<Rightarrow> re_flags \<Rightarrow> (pymatch \<Rightarrow> 'st \<Rightarrow> py_error + pystr \<times> 'st) \<Rightarrow> bool \<Rightarrow> pystr \<Rightarrow> 'st \<Rightarrow>
     py_error + pystr \<times> 'st" where
  "sub_loop r fl f adv s st =
     (case search_from r fl adv [] s of
        None \<Rightarrow> Inr (s, st)
      | Some (pre, m, post) \<Rightarrow>
          (case f m st of
             Inl e \<Rightarrow> Inl e
           | Inr (new, st') \<Rightarrow>
               (case sub_loop r fl f (whole m = []) post st' of
                  Inl e \<Rightarrow> Inl e
                | Inr (out, st'') \<Rightarrow> Inr (pre @ new @ out, st''))))"
  by pat_completeness auto
termination
proof (relation "measure (\<lambda>(r, fl, f, adv, s, st). 2 * length s + (if adv then 0 else 1))", goal_cases)
  case 1
  show ?case by simp
next
  case 2
  then show ?case
    by (auto dest!: search_from_measure)
qed

declare sub_loop.simps [simp del]

text \<open>
  The matches that this loop visits, each with the text between it and the match before.
\<close>

function finditer :: "regex \<Rightarrow> re_flags \<Rightarrow> bool \<Rightarrow> pystr \<Rightarrow> (pystr \<times> pymatch) list" where
  "finditer r fl adv s =
     (case search_from r fl adv [] s of
        None \<Rightarrow> []
      | Some (pre, m, post) \<Rightarrow> (pre, m) # finditer r fl (whole m = []) post)"
  by pat_completeness auto
termination
proof (relation "measure (\<lambda>(r, fl, adv, s). 2 * length s + (if adv then 0 else 1))", goal_cases)
  case 1
  show ?case by simp
next
  case 2
  then show ?case
    by (auto dest!: search_from_measure)
qed

declare finditer.simps [simp del]

text \<open>The text after the last match.\<close>

function after_last :: "regex \<Rightarrow> re_flags \<Rightarrow> bool \<Rightarrow> pystr \<Rightarrow> pystr" where
  "after_last r fl adv s =
     (case search_from r fl adv [] s of
        None \<Rightarrow> s
      | Some (pre, m, post) \<Rightarrow> after_last r fl (whole m = []) post)"
  by pat_completeness auto
termination
proof (relation "measure (\<lambda>(r, fl, adv, s). 2 * length s + (if adv then 0 else 1))", goal_cases)
  case 1
  show ?case by simp
next
  case 2
  then show ?case
    by (auto dest!: search_from_measure)
qed

declare after_last.simps [simp del]

lemma finditer_None: "search_from r fl adv [] s = None \<Longrightarrow> finditer r fl adv s = []"
  by (simp add: finditer.simps [of r fl adv s])

lemma finditer_Some:
  "search_from r fl adv [] s = Some (pre, m, post) \<Longrightarrow>
     finditer r fl adv s = (pre, m) # finditer r fl (whole m = []) post"
  by (simp add: finditer.simps [of r fl adv s])

lemma after_last_None: "search_from r fl adv [] s = None \<Longrightarrow> after_last r fl adv s = s"
  by (simp add: after_last.simps [of r fl adv s])

lemma after_last_Some:
  "search_from r fl adv [] s = Some (pre, m, post) \<Longrightarrow>
     after_last r fl adv s = after_last r fl (whole m = []) post"
  by (simp add: after_last.simps [of r fl adv s])

lemma sub_loop_None: "search_from r fl adv [] s = None \<Longrightarrow> sub_loop r fl f adv s st = Inr (s, st)"
  by (simp add: sub_loop.simps [of r fl f adv s st])

lemma sub_loop_Some:
  "search_from r fl adv [] s = Some (pre, m, post) \<Longrightarrow>
     sub_loop r fl f adv s st =
       (case f m st of
          Inl e \<Rightarrow> Inl e
        | Inr (new, st') \<Rightarrow>
            (case sub_loop r fl f (whole m = []) post st' of
               Inl e \<Rightarrow> Inl e
             | Inr (out, st'') \<Rightarrow> Inr (pre @ new @ out, st'')))"
  by (simp add: sub_loop.simps [of r fl f adv s st])

lemma sub_loop_pure:
  assumes "\<And>pre m. (pre, m) \<in> set (finditer r fl adv s) \<Longrightarrow> g m = Inr (h m)"
  shows "sub_loop r fl (\<lambda>m st. case g m of Inl e \<Rightarrow> Inl e | Inr new \<Rightarrow> Inr (new, upd m new st))
           adv s st =
         Inr (concat (map (\<lambda>(pre, m). pre @ h m) (finditer r fl adv s)) @ after_last r fl adv s,
              foldl (\<lambda>st (pre, m). upd m (h m) st) st (finditer r fl adv s))"
  using assms
proof (induction r fl adv s arbitrary: st rule: finditer.induct)
  case (1 r fl adv s)
  show ?case
  proof (cases "search_from r fl adv [] s")
    case None
    then show ?thesis
      by (simp add: finditer_None after_last_None sub_loop_None)
  next
    case (Some x)
    obtain pre m post where x: "x = (pre, m, post)"
      by (cases x) auto
    note found = Some [unfolded x]
    have fi: "finditer r fl adv s = (pre, m) # finditer r fl (whole m = []) post"
      by (rule finditer_Some [OF found])
    have g: "g m = Inr (h m)"
      using "1.prems" [of pre m] by (simp add: fi)
    have rest: "\<And>p m'. (p, m') \<in> set (finditer r fl (whole m = []) post) \<Longrightarrow> g m' = Inr (h m')"
      using "1.prems" by (auto simp: fi)
    have IH: "sub_loop r fl (\<lambda>m st. case g m of Inl e \<Rightarrow> Inl e | Inr new \<Rightarrow> Inr (new, upd m new st))
           (whole m = []) post (upd m (h m) st) =
         Inr (concat (map (\<lambda>(pre, m). pre @ h m) (finditer r fl (whole m = []) post)) @
                after_last r fl (whole m = []) post,
              foldl (\<lambda>st (pre, m). upd m (h m) st) (upd m (h m) st)
                (finditer r fl (whole m = []) post))"
      by (rule "1.IH" [OF found refl refl rest])
    show ?thesis
      by (simp add: sub_loop_Some [OF found] g IH fi after_last_Some [OF found])
  qed
qed

lemma finditer_pieces:
  "concat (map (\<lambda>(pre, m). pre @ whole m) (finditer r fl adv s)) @ after_last r fl adv s = s"
proof (induction r fl adv s rule: finditer.induct)
  case (1 r fl adv s)
  show ?case
  proof (cases "search_from r fl adv [] s")
    case None
    then show ?thesis
      by (simp add: finditer_None after_last_None)
  next
    case (Some x)
    obtain pre m post where x: "x = (pre, m, post)"
      by (cases x) auto
    note found = Some [unfolded x]
    from search_from_sound [OF found] have s: "s = pre @ whole m @ post"
      by auto
    have IH: "concat (map (\<lambda>(pre, m). pre @ whole m) (finditer r fl (whole m = []) post)) @
            after_last r fl (whole m = []) post = post"
      by (rule "1.IH" [OF found refl refl])
    have "concat (map (\<lambda>(pre, m). pre @ whole m) (finditer r fl adv s)) @ after_last r fl adv s =
          pre @ whole m @
          (concat (map (\<lambda>(pre, m). pre @ whole m) (finditer r fl (whole m = []) post)) @
           after_last r fl (whole m = []) post)"
      by (simp add: finditer_Some [OF found] after_last_Some [OF found])
    also have "\<dots> = pre @ whole m @ post"
      by (simp only: IH)
    also have "\<dots> = s"
      by (simp only: s [symmetric])
    finally show ?thesis .
  qed
qed

lemma finditer_groups:
  "(pre, m) \<in> set (finditer r fl adv s) \<Longrightarrow> must r \<subseteq> dom (groups m)"
proof (induction r fl adv s rule: finditer.induct)
  case (1 r fl adv s)
  show ?case
  proof (cases "search_from r fl adv [] s")
    case None
    with "1.prems" show ?thesis
      by (simp add: finditer_None)
  next
    case (Some x)
    obtain pre' m' post where x: "x = (pre', m', post)"
      by (cases x) auto
    note found = Some [unfolded x]
    from "1.prems" have "(pre, m) = (pre', m') \<or> (pre, m) \<in> set (finditer r fl (whole m' = []) post)"
      by (simp add: finditer_Some [OF found])
    then show ?thesis
    proof
      assume "(pre, m) = (pre', m')"
      with search_from_sound [OF found] show ?thesis by auto
    next
      assume "(pre, m) \<in> set (finditer r fl (whole m' = []) post)"
      then show ?thesis
        by (rule "1.IH" [OF found refl refl])
    qed
  qed
qed

lemma finditer_nonempty:
  "(pre, m) \<in> set (finditer r fl adv s) \<Longrightarrow> 0 < minlen r \<Longrightarrow> whole m \<noteq> []"
proof (induction r fl adv s rule: finditer.induct)
  case (1 r fl adv s)
  show ?case
  proof (cases "search_from r fl adv [] s")
    case None
    with "1.prems" show ?thesis
      by (simp add: finditer_None)
  next
    case (Some x)
    obtain pre' m' post where x: "x = (pre', m', post)"
      by (cases x) auto
    note found = Some [unfolded x]
    from "1.prems" have "(pre, m) = (pre', m') \<or> (pre, m) \<in> set (finditer r fl (whole m' = []) post)"
      by (simp add: finditer_Some [OF found])
    then show ?thesis
    proof
      assume "(pre, m) = (pre', m')"
      with search_from_nonempty [OF found "1.prems"(2)] show ?thesis by auto
    next
      assume "(pre, m) \<in> set (finditer r fl (whole m' = []) post)"
      then show ?thesis
        by (rule "1.IH" [OF found refl refl _ "1.prems"(2)])
    qed
  qed
qed

lemma after_last_no_match:
  "0 < minlen r \<Longrightarrow> \<not> adv \<Longrightarrow> search_from r fl False [] (after_last r fl adv s) = None"
proof (induction r fl adv s rule: finditer.induct)
  case (1 r fl adv s)
  show ?case
  proof (cases "search_from r fl adv [] s")
    case None
    from "1.prems"(2) None have "search_from r fl False [] s = None"
      by simp
    then show ?thesis
      by (simp only: after_last_None [OF None])
  next
    case (Some x)
    obtain pre m post where x: "x = (pre, m, post)"
      by (cases x) auto
    note found = Some [unfolded x]
    from search_from_nonempty [OF found "1.prems"(1)] have ne: "\<not> (whole m = [])" .
    show ?thesis
      using "1.IH" [OF found refl refl "1.prems"(1) ne] by (simp add: after_last_Some [OF found])
  qed
qed

subsection \<open>\<^verbatim>\<open>re.sub\<close> with a string as replacement\<close>

text \<open>
  The string is a template: Python parses it before it looks for a match, and raises
  \<^verbatim>\<open>re.error\<close> for a backslash followed by an ASCII letter that is no escape, for a
  backslash at the end, and for a reference to a group the pattern does not have
  (\<^verbatim>\<open>IndexError\<close> for an unknown group name; both are \<open>Template_error\<close> here).  A
  group is named by \<^verbatim>\<open>\1\<close> to \<^verbatim>\<open>\99\<close> or by \<^verbatim>\<open>\g<digits>\<close>; a name that is not
  made of ASCII digits is an error (Python 3.11 still accepts, with a warning, a few other
  spellings of a number, which later versions refuse).
\<close>

datatype tpart = TChar nat | TGroup nat

definition is_octal :: "nat \<Rightarrow> bool" where
  "is_octal t = (48 \<le> t \<and> t \<le> 55)"

definition digits_value :: "nat \<Rightarrow> pystr \<Rightarrow> nat" where
  "digits_value b ds = foldl (\<lambda>v d. b * v + (d - 48)) 0 ds"

text \<open>The escapes \<^verbatim>\<open>\a \b \f \n \r \t \v \\\<close>.\<close>

definition escape_of :: "nat \<Rightarrow> nat option" where
  "escape_of c =
     (if c = ch CHR ''a'' then Some 7
      else if c = ch CHR ''b'' then Some 8
      else if c = ch CHR ''f'' then Some 12
      else if c = ch CHR ''n'' then Some 10
      else if c = ch CHR ''r'' then Some 13
      else if c = ch CHR ''t'' then Some 9
      else if c = ch CHR ''v'' then Some 11
      else if c = backslash then Some backslash
      else None)"

definition add_part :: "tpart \<Rightarrow> py_error + tpart list \<Rightarrow> py_error + tpart list" where
  "add_part p rest = (case rest of Inl e \<Rightarrow> Inl e | Inr ps \<Rightarrow> Inr (p # ps))"

definition add_group :: "nat \<Rightarrow> nat \<Rightarrow> py_error + tpart list \<Rightarrow> py_error + tpart list" where
  "add_group g i rest = (if g < i then Inl Template_error else add_part (TGroup i) rest)"

text \<open>\<open>parse_template g\<close> for a pattern with \<open>g\<close> groups.\<close>

function parse_template :: "nat \<Rightarrow> pystr \<Rightarrow> py_error + tpart list" where
  "parse_template g [] = Inr []"
| "parse_template g (t # ts) =
     (if t \<noteq> backslash then add_part (TChar t) (parse_template g ts)
      else
        (case ts of
           [] \<Rightarrow> Inl Template_error
         | c # cs \<Rightarrow>
             if c = ch CHR ''g'' then
               (case cs of
                  [] \<Rightarrow> Inl Template_error
                | a # as \<Rightarrow>
                    if a \<noteq> ch CHR ''<'' then Inl Template_error
                    else if dropWhile (\<lambda>x. x \<noteq> ch CHR ''>'') as = []
                            \<or> takeWhile (\<lambda>x. x \<noteq> ch CHR ''>'') as = []
                            \<or> \<not> list_all is_ascii_digit (takeWhile (\<lambda>x. x \<noteq> ch CHR ''>'') as)
                         then Inl Template_error
                    else add_group g (digits_value 10 (takeWhile (\<lambda>x. x \<noteq> ch CHR ''>'') as))
                           (parse_template g (tl (dropWhile (\<lambda>x. x \<noteq> ch CHR ''>'') as))))
             else if c = ch CHR ''0'' then
               add_part (TChar (digits_value 8 (takeWhile is_octal (take 2 cs)) mod 256))
                 (parse_template g (drop (length (takeWhile is_octal (take 2 cs))) cs))
             else if is_ascii_digit c then
               (case cs of
                  [] \<Rightarrow> add_group g (digits_value 10 [c]) (parse_template g cs)
                | d # ds \<Rightarrow>
                    if \<not> is_ascii_digit d then add_group g (digits_value 10 [c]) (parse_template g cs)
                    else
                      (case ds of
                         [] \<Rightarrow> add_group g (digits_value 10 [c, d]) (parse_template g ds)
                       | e # es \<Rightarrow>
                           if is_octal c \<and> is_octal d \<and> is_octal e then
                             (if 255 < digits_value 8 [c, d, e] then Inl Template_error
                              else add_part (TChar (digits_value 8 [c, d, e])) (parse_template g es))
                           else add_group g (digits_value 10 [c, d]) (parse_template g ds)))
             else
               (case escape_of c of
                  Some v \<Rightarrow> add_part (TChar v) (parse_template g cs)
                | None \<Rightarrow>
                    if is_ascii_letter c then Inl Template_error
                    else add_part (TChar backslash) (add_part (TChar c) (parse_template g cs)))))"
  by pat_completeness auto
termination
proof (relation "measure (\<lambda>(g, s). length s)", goal_cases)
  case (3 g t ts c cs a as)
  have "length (dropWhile (\<lambda>x. x \<noteq> ch CHR ''>'') as) \<le> length as"
    by (rule length_dropWhile_le)
  then have "length (tl (dropWhile (\<lambda>x. x \<noteq> ch CHR ''>'') as)) \<le> length as"
    by simp
  with 3 show ?case by simp
qed auto

declare parse_template.simps [simp del]

definition expand_template :: "tpart list \<Rightarrow> pymatch \<Rightarrow> pystr" where
  "expand_template parts m =
     concat (map (\<lambda>p. case p of
                        TChar t \<Rightarrow> [t]
                      | TGroup i \<Rightarrow>
                          (if i = 0 then whole m
                           else case groups m i of Some g \<Rightarrow> g | None \<Rightarrow> []))
                 parts)"

text \<open>\<^verbatim>\<open>pattern.groups\<close>: the number of capturing groups.\<close>

fun group_count :: "regex \<Rightarrow> nat" where
  "group_count (Seq a b) = group_count a + group_count b"
| "group_count (Alt a b) = group_count a + group_count b"
| "group_count (Star a) = group_count a"
| "group_count (Plus a) = group_count a"
| "group_count (Opt a) = group_count a"
| "group_count (LazyStar a) = group_count a"
| "group_count (LazyPlus a) = group_count a"
| "group_count (Rep n a) = group_count a"
| "group_count (Grp n a) = Suc (group_count a)"
| "group_count (Look a) = group_count a"
| "group_count r = 0"

text \<open>\<^verbatim>\<open>re.sub(pattern, repl, s, flags)\<close> for a string \<open>repl\<close>: every match is replaced.\<close>

definition re_sub :: "regex \<Rightarrow> re_flags \<Rightarrow> pystr \<Rightarrow> pystr \<Rightarrow> py_error + pystr" where
  "re_sub r fl repl s =
     (case parse_template (group_count r) repl of
        Inl e \<Rightarrow> Inl e
      | Inr parts \<Rightarrow>
          (case sub_loop r fl (\<lambda>m u. Inr (expand_template parts m, u)) False s () of
             Inl e \<Rightarrow> Inl e
           | Inr (out, u) \<Rightarrow> Inr out))"

section \<open>change\_tracker.py: class ChangeTracker\<close>

datatype change_type = Addition | Deletion | Modification | No_change

text \<open>
  The dictionary that \<^verbatim>\<open>track_change\<close> builds.  The key \<^verbatim>\<open>id\<close> is the field
  \<open>id_c\<close>, and the key \<^verbatim>\<open>change_type\<close> is the field \<open>ctype\<close>, whose four possible
  strings are the constructors of \<^typ>\<open>change_type\<close>.
\<close>

record change =
  id_c :: nat
  field :: pystr
  old_value :: pystr
  new_value :: pystr
  description :: pystr
  timestamp :: pystr
  ctype :: change_type

text \<open>The object state: \<^verbatim>\<open>self.changes\<close>.  \<^verbatim>\<open>__init__\<close> starts it empty.\<close>

record change_tracker =
  changes :: "change list"

definition init :: change_tracker where
  "init = \<lparr>changes = []\<rparr>"

text \<open>
  \<^verbatim>\<open>_determine_change_type\<close>.  A Python string is false exactly when it is empty.
\<close>

definition determine_change_type :: "pystr \<Rightarrow> pystr \<Rightarrow> change_type" where
  "determine_change_type old new =
     (if old = [] \<and> new \<noteq> [] then Addition
      else if old \<noteq> [] \<and> new = [] then Deletion
      else if old \<noteq> new then Modification
      else No_change)"

text \<open>
  \<^verbatim>\<open>track_change\<close>.  The clock is read once; \<open>now\<close> is what
  \<^verbatim>\<open>datetime.now().isoformat()\<close> returned.  The result is the new record and the
  tracker with the record appended.
\<close>

definition track_change ::
  "change_tracker \<Rightarrow> pystr \<Rightarrow> pystr \<Rightarrow> pystr \<Rightarrow> pystr \<Rightarrow> pystr \<Rightarrow> change \<times> change_tracker" where
  "track_change self now fld old new descr =
     (let c = \<lparr>id_c = length (changes self) + 1, field = fld, old_value = old,
                new_value = new, description = descr, timestamp = now,
                ctype = determine_change_type old new\<rparr>
      in (c, self\<lparr>changes := changes self @ [c]\<rparr>))"

text \<open>
  A sequence of calls on one tracker: each call is its four arguments and the clock
  reading it gets.
\<close>

record call =
  c_now :: pystr
  c_field :: pystr
  c_old :: pystr
  c_new :: pystr
  c_descr :: pystr

fun track_all :: "change_tracker \<Rightarrow> call list \<Rightarrow> change_tracker" where
  "track_all self [] = self"
| "track_all self (a # as) =
     track_all (snd (track_change self (c_now a) (c_field a) (c_old a) (c_new a) (c_descr a))) as"

text \<open>
  \<^verbatim>\<open>generate_summary\<close>.  The returned dictionary has the key \<^verbatim>\<open>timestamp\<close> only for a
  non-empty change list, and \<^verbatim>\<open>change_types\<close> is the empty dictionary for an empty
  one.  \<^verbatim>\<open>fields_modified\<close> is a list made from a set: its order is not fixed, so it
  is a set here.
\<close>

record summary =
  total_changes :: nat
  change_types :: "string \<rightharpoonup> nat"
  fields_modified :: "pystr set"
  summary_text :: pystr
  summary_timestamp :: "pystr option"

text \<open>The counting loop: the state is the three counters and the set of fields.\<close>

record counters =
  additions :: nat
  modifications :: nat
  deletions :: nat
  fields_seen :: "pystr set"

definition count_step :: "counters \<Rightarrow> change \<Rightarrow> counters" where
  "count_step st c =
     (let st' = (if ctype c = Addition then st\<lparr>additions := additions st + 1\<rparr>
                 else if ctype c = Modification then st\<lparr>modifications := modifications st + 1\<rparr>
                 else if ctype c = Deletion then st\<lparr>deletions := deletions st + 1\<rparr>
                 else st)
      in st'\<lparr>fields_seen := insert (field c) (fields_seen st')\<rparr>)"

definition count_changes :: "change list \<Rightarrow> counters" where
  "count_changes cs =
     foldl count_step \<lparr>additions = 0, modifications = 0, deletions = 0, fields_seen = {}\<rparr> cs"

definition summary_parts :: "counters \<Rightarrow> pystr list" where
  "summary_parts st =
     (if additions st > 0 then [str_nat (additions st) @ S '' addition(s)''] else []) @
     (if modifications st > 0 then [str_nat (modifications st) @ S '' modification(s)''] else []) @
     (if deletions st > 0 then [str_nat (deletions st) @ S '' deletion(s)''] else [])"

definition generate_summary :: "pystr \<Rightarrow> change list \<Rightarrow> summary" where
  "generate_summary now cs =
     (if cs = [] then
        \<lparr>total_changes = 0, change_types = Map.empty, fields_modified = {},
         summary_text = S ''No changes were made to the document.'',
         summary_timestamp = None\<rparr>
      else
        (let st = count_changes cs in
         \<lparr>total_changes = length cs,
          change_types = [''additions'' \<mapsto> additions st,
                          ''modifications'' \<mapsto> modifications st,
                          ''deletions'' \<mapsto> deletions st],
          fields_modified = fields_seen st,
          summary_text = S ''Document successfully merged with '' @
                         join (S '', '') (summary_parts st) @ S ''.'',
          summary_timestamp = Some now\<rparr>))"

text \<open>
  The summary as the specification words it: the number of records of each type, and the
  sentence that lists the non-zero counts in the order addition, modification, deletion.
\<close>

definition count_of :: "change_type \<Rightarrow> change list \<Rightarrow> nat" where
  "count_of t cs = length (filter (\<lambda>c. ctype c = t) cs)"

definition spec_sentence :: "nat \<Rightarrow> nat \<Rightarrow> nat \<Rightarrow> pystr" where
  "spec_sentence a m d =
     S ''Document successfully merged with '' @
     join (S '', '')
       (map (\<lambda>(n, w). str_nat n @ S w)
         (filter (\<lambda>(n, w). 0 < n)
           [(a, '' addition(s)''), (m, '' modification(s)''), (d, '' deletion(s)'')])) @
     S ''.''"

section \<open>document\_processor.py: merge\_documents\<close>

text \<open>
  A merge rule is the dictionary of the source: its \<^verbatim>\<open>field\<close>, its \<^verbatim>\<open>pattern\<close>, its
  \<^verbatim>\<open>replacement\<close> (a string, or a function of the match, which may raise), its
  \<^verbatim>\<open>description\<close>, and the key \<^verbatim>\<open>recap_field\<close> that two rules carry and that
  \<^verbatim>\<open>merge_documents\<close> never reads.
\<close>

datatype replacement = Fixed pystr | Computed "pymatch \<Rightarrow> py_error + pystr"

record merge_rule =
  r_field :: pystr
  r_pattern :: regex
  r_replacement :: replacement
  r_recap_field :: "string option"
  r_description :: pystr

definition rule_flags :: "unicode_db \<Rightarrow> re_flags" where
  "rule_flags U = \<lparr>ignorecase = True, dotall = False, unicode = U\<rparr>"

definition no_flags :: "unicode_db \<Rightarrow> re_flags" where
  "no_flags U = \<lparr>ignorecase = False, dotall = False, unicode = U\<rparr>"

text \<open>What an f-string writes for \<^verbatim>\<open>m.group(i)\<close>.\<close>

definition fmt_group :: "pymatch \<Rightarrow> nat \<Rightarrow> pystr" where
  "fmt_group m i = (case groups m i of Some g \<Rightarrow> g | None \<Rightarrow> S ''None'')"

text \<open>\<^verbatim>\<open>(made and concluded in\s+\w+\s+)(\d+)(th|st|nd|rd)(\s+day of\s+\w+\s+19\s+)(\d+)\<close>\<close>

definition charter_date_pattern :: regex where
  "charter_date_pattern =
     seq [Grp 1 (seq [lits ''made and concluded in'', Plus (Cls Space), Plus (Cls Word),
     Plus (Cls Space)]), Grp 2 (Plus (Cls Digit)),
     Grp 3 (Alt (lits ''th'') (Alt (lits ''st'') (Alt (lits ''nd'') (lits ''rd'')))),
     Grp 4 (seq [Plus (Cls Space), lits ''day of'', Plus (Cls Space), Plus (Cls Word),
     Plus (Cls Space), lits ''19'', Plus (Cls Space)]), Grp 5 (Plus (Cls Digit))]"

text \<open>\<^verbatim>\<open>(Steamship/Motorship\s+")([^"]+)(")\<close>\<close>

definition vessel_name_pattern :: regex where
  "vessel_name_pattern =
     seq [Grp 1 (seq [lits ''Steamship/Motorship'', Plus (Cls Space), Lit dquote]),
     Grp 2 (Plus (NSet [Chr dquote])), Grp 3 (Lit dquote)]"

text \<open>\<^verbatim>\<open>(Between\s+)[^,]+,([^,]+,){2}[^,]+,([^,]+,)[^,]+\<close>\<close>

definition owner_details_pattern :: regex where
  "owner_details_pattern =
     seq [Grp 1 (seq [lits ''Between'', Plus (Cls Space)]), Plus (NSet [Chr (ch CHR '','')]),
     lits '','', Rep 2 (Grp 2 (seq [Plus (NSet [Chr (ch CHR '','')]), lits '',''])),
     Plus (NSet [Chr (ch CHR '','')]), lits '','',
     Grp 3 (seq [Plus (NSet [Chr (ch CHR '','')]), lits '','']),
     Plus (NSet [Chr (ch CHR '','')])]"

definition owner_details_text :: pystr where
  "owner_details_text =
     S ''MV LUNAR STAR 1 SHIPPING COMPANY LIMITED, C/o Oesterreichischer Lloyd '' @
     S ''Seereederei (Cyprus) Ltd, 67 Franklin Roosevelt Ave, Limassol, VAT num'' @
     S ''ber CY60177359M''"

text \<open>\<^verbatim>\<open>(and\s+)[^C]+COMPANY[^S]+SINGAPORE[^S]+SINGAPORE\<close>\<close>

definition charterer_details_pattern :: regex where
  "charterer_details_pattern =
     seq [Grp 1 (seq [lits ''and'', Plus (Cls Space)]), Plus (NSet [Chr (ch CHR ''C'')]),
     lits ''COMPANY'', Plus (NSet [Chr (ch CHR ''S'')]), lits ''SINGAPORE'',
     Plus (NSet [Chr (ch CHR ''S'')]), lits ''SINGAPORE'']"

definition charterer_details_text :: pystr where
  "charterer_details_text =
     S ''Louis Dreyfus Company Suisse S.A.- Charterers of the City of GVA Cente'' @
     S ''r,29 route de l'' @
     [apostrophe] @
     S '' A'' @
     [e_acute] @
     S ''roport- P.O. Box 236, 1215 Geneva 15,Switzerland''"

text \<open>\<^verbatim>\<open>(about\s+minimum\s+)(\d+)(\s+months\s+to\s+maximum\s+)(\d+)(\s+months[^,]*)\<close>\<close>

definition charter_period_pattern :: regex where
  "charter_period_pattern =
     seq [Grp 1 (seq [lits ''about'', Plus (Cls Space), lits ''minimum'', Plus (Cls Space)]),
     Grp 2 (Plus (Cls Digit)), Grp 3 (seq [Plus (Cls Space), lits ''months'',
     Plus (Cls Space), lits ''to'', Plus (Cls Space), lits ''maximum'', Plus (Cls Space)]),
     Grp 4 (Plus (Cls Digit)), Grp 5 (seq [Plus (Cls Space), lits ''months'',
     Star (NSet [Chr (ch CHR '','')])])]"

definition charter_period_text :: pystr where
  "charter_period_text =
     S ''About 11 to about 14 months (about to mean +/- 15 days in charterer'' @
     [apostrophe] @
     S ''s option) at 107.00 % bhsi38 index ( with option to convert to fixed r'' @
     S ''ate) + opt about 10 '' @
     [en_dash] @
     S '' about 14 months (about to mean +/ - 15 days in charterer'' @
     [apostrophe] @
     S ''s option) at $ 11,500 declarable in charterer'' @
     [apostrophe] @
     S ''s option. Optional 10-14 months to be declared by Charterers latest 45'' @
     S '' days prior max duration''"

text \<open>\<^verbatim>\<open>(at\s+on\s+dropping\s+last\s+outward\s+sea\s+pilot\s+)[^(]+(\(intention[^)]*\))\<close>\<close>

definition delivery_port_pattern :: regex where
  "delivery_port_pattern =
     seq [Grp 1 (seq [lits ''at'', Plus (Cls Space), lits ''on'', Plus (Cls Space),
     lits ''dropping'', Plus (Cls Space), lits ''last'', Plus (Cls Space), lits ''outward'',
     Plus (Cls Space), lits ''sea'', Plus (Cls Space), lits ''pilot'', Plus (Cls Space)]),
     Plus (NSet [Chr (ch CHR ''('')]), Grp 2 (seq [lits ''(intention'',
     Star (NSet [Chr (ch CHR '')'')]), lits '')''])]"

definition delivery_port_text :: pystr where
  "delivery_port_text =
     S ''Yeosu, subject Sellers port changes''"

text \<open>\<^verbatim>\<open>(WOULD SUGGEST 1 \(ONE\) MONTH AFTER DIVER SURVEY TO BE CARRIED OUT IN YEOSU)\<close>\<close>

definition laycan_pattern :: regex where
  "laycan_pattern =
     Grp 1 (lits ''WOULD SUGGEST 1 (ONE) MONTH AFTER DIVER SURVEY TO BE CARRIED OUT IN YEOSU'')"

definition laycan_text :: pystr where
  "laycan_text =
     S ''Laycan: 3-10 July '' @
     [en_dash] @
     S '' it is mutually agreed between both Owners and Charterers that if any '' @
     S ''adjustment on laycan required, same to be discussed in good faith by b'' @
     S ''oth parties''"

text \<open>\<^verbatim>\<open>(as the Charterers or their Agents shall direct, on the following conditions:)\<close>\<close>

definition exclusion_pattern :: regex where
  "exclusion_pattern =
     Grp 1 (lits ''as the Charterers or their Agents shall direct, on the following conditions:'')"

definition dd_clause :: pystr where
  "dd_clause =
     [newline, newline] @
     S ''DRY-DOCKING CLAUSE:'' @
     [newline] @
     S ''Dry-docking / SS Oct - early Nov 25 in China or Med/Black Sea/Portugal'' @
     S '', duration 10-15 days. DD location (med or China) is in Charterer'' @
     [apostrophe] @
     S ''s option. Charterers to place the vessel into either Med Sea / Black S'' @
     S ''ea range or Singapore - Japan range for owners to take over for DD.'' @
     [newline]"

text \<open>
  The three functions of the rule list.  \<^verbatim>\<open>m.group(4).replace('May', 'June')\<close> raises
  \<^verbatim>\<open>AttributeError\<close> when group 4 is \<^verbatim>\<open>None\<close>.
\<close>

definition charter_date_replacement :: "pymatch \<Rightarrow> py_error + pystr" where
  "charter_date_replacement m =
     (case groups m 4 of
        None \<Rightarrow> Inl Attribute_error
      | Some g4 \<Rightarrow>
          Inr (fmt_group m 1 @ S ''10'' @ fmt_group m 3 @
               replace_all (S ''May'') (S ''June'') g4 @ S ''2025''))"

definition vessel_name_replacement :: "pymatch \<Rightarrow> py_error + pystr" where
  "vessel_name_replacement m = Inr (fmt_group m 1 @ S ''LUNAR STAR 1'' @ fmt_group m 3)"

definition charter_period_replacement :: "pymatch \<Rightarrow> py_error + pystr" where
  "charter_period_replacement m = Inr charter_period_text"

definition merge_rules :: "merge_rule list" where
  "merge_rules =
     [\<lparr>r_field = S ''charter_date'', r_pattern = charter_date_pattern,
       r_replacement = Computed charter_date_replacement, r_recap_field = None,
       r_description = S ''Updated charter date to June 10, 2025''\<rparr>,
      \<lparr>r_field = S ''vessel_name'', r_pattern = vessel_name_pattern,
       r_replacement = Computed vessel_name_replacement, r_recap_field = Some ''vessel_name'',
       r_description = S ''Updated vessel name''\<rparr>,
      \<lparr>r_field = S ''owner_details'', r_pattern = owner_details_pattern,
       r_replacement = Fixed owner_details_text, r_recap_field = None,
       r_description = S ''Updated owner details''\<rparr>,
      \<lparr>r_field = S ''charterer_details'', r_pattern = charterer_details_pattern,
       r_replacement = Fixed charterer_details_text, r_recap_field = None,
       r_description = S ''Updated charterer details''\<rparr>,
      \<lparr>r_field = S ''charter_period'', r_pattern = charter_period_pattern,
       r_replacement = Computed charter_period_replacement, r_recap_field = None,
       r_description = S ''Updated charter period with index rate and optional period''\<rparr>,
      \<lparr>r_field = S ''delivery_port'', r_pattern = delivery_port_pattern,
       r_replacement = Fixed delivery_port_text, r_recap_field = Some ''delivery_port'',
       r_description = S ''Updated delivery port''\<rparr>,
      \<lparr>r_field = S ''laycan'', r_pattern = laycan_pattern,
       r_replacement = Fixed laycan_text, r_recap_field = None,
       r_description = S ''Added laycan period''\<rparr>]"

text \<open>
  The state of \<^verbatim>\<open>merge_documents\<close>: the local variables \<^verbatim>\<open>merged_text\<close> and
  \<^verbatim>\<open>changes\<close>, and the tracker object it was given.
\<close>

record merge_state =
  merged_text :: pystr
  changes_local :: "change list"
  tracker :: change_tracker

text \<open>
  \<^verbatim>\<open>changes.append(change_tracker.track_change(...))\<close>.  The clock is a parameter:
  \<open>clock n\<close> is what \<^verbatim>\<open>datetime.now().isoformat()\<close> returns at the call of
  \<^verbatim>\<open>track_change\<close> that follows \<open>n\<close> earlier ones of this merge.
\<close>

definition log_change ::
  "(nat \<Rightarrow> pystr) \<Rightarrow> merge_state \<Rightarrow> pystr \<Rightarrow> pystr \<Rightarrow> pystr \<Rightarrow> pystr \<Rightarrow> merge_state" where
  "log_change clock st fld old new descr =
     (let (c, tr) = track_change (tracker st) (clock (length (changes_local st))) fld old new descr
      in st\<lparr>changes_local := changes_local st @ [c], tracker := tr\<rparr>)"

text \<open>The inner function \<^verbatim>\<open>replace_func\<close> of the loop over the rules.\<close>

definition replace_func ::
  "(nat \<Rightarrow> pystr) \<Rightarrow> merge_rule \<Rightarrow> (pymatch \<Rightarrow> py_error + pystr) \<Rightarrow> pymatch \<Rightarrow> merge_state \<Rightarrow>
     py_error + pystr \<times> merge_state" where
  "replace_func clock rule f m st =
     (case f m of
        Inl e \<Rightarrow> Inl e
      | Inr new_text \<Rightarrow>
          Inr (new_text, log_change clock st (r_field rule) (whole m) new_text (r_description rule)))"

text \<open>The body of the loop over the rules.\<close>

definition apply_rule :: "unicode_db \<Rightarrow> (nat \<Rightarrow> pystr) \<Rightarrow> merge_rule \<Rightarrow> merge_state \<Rightarrow> py_error + merge_state" where
  "apply_rule U clock rule st =
     (case r_replacement rule of
        Computed f \<Rightarrow>
          (case sub_loop (r_pattern rule) (rule_flags U) (replace_func clock rule f) False
                  (merged_text st) st of
             Inl e \<Rightarrow> Inl e
           | Inr (out, st') \<Rightarrow> Inr (st'\<lparr>merged_text := out\<rparr>))
      | Fixed new_text \<Rightarrow>
          (case re_search (r_pattern rule) (rule_flags U) (merged_text st) of
             None \<Rightarrow> Inr st
           | Some (pre, m, post) \<Rightarrow>
               (case re_sub (r_pattern rule) (rule_flags U) new_text (merged_text st) of
                  Inl e \<Rightarrow> Inl e
                | Inr out \<Rightarrow>
                    Inr ((log_change clock st (r_field rule) (whole m) new_text
                            (r_description rule))\<lparr>merged_text := out\<rparr>))))"

fun apply_rules :: "unicode_db \<Rightarrow> (nat \<Rightarrow> pystr) \<Rightarrow> merge_rule list \<Rightarrow> merge_state \<Rightarrow> py_error + merge_state" where
  "apply_rules U clock [] st = Inr st"
| "apply_rules U clock (rule # rules) st =
     (case apply_rule U clock rule st of
        Inl e \<Rightarrow> Inl e
      | Inr st' \<Rightarrow> apply_rules U clock rules st')"

text \<open>
  The trading exclusions: the only place where \<^verbatim>\<open>recap_data\<close> is read.  The
  replacement is the template \<^verbatim>\<open>\1\<close> followed by the block, so the block is parsed as
  a template too.
\<close>

definition trading_block :: "pystr \<Rightarrow> pystr" where
  "trading_block v = [newline, newline] @ S ''TRADING EXCLUSIONS:'' @ [newline] @ v @ [newline]"

definition add_trading_exclusions ::
  "unicode_db \<Rightarrow> (nat \<Rightarrow> pystr) \<Rightarrow> (string \<rightharpoonup> pystr) \<Rightarrow> merge_state \<Rightarrow> py_error + merge_state" where
  "add_trading_exclusions U clock recap_data st =
     (case recap_data ''trading_exclusions'' of
        None \<Rightarrow> Inr st
      | Some v \<Rightarrow>
          (case re_search exclusion_pattern (no_flags U) (merged_text st) of
             None \<Rightarrow> Inr st
           | Some found \<Rightarrow>
               (case re_sub exclusion_pattern (no_flags U) ([backslash, ch CHR ''1''] @ trading_block v)
                       (merged_text st) of
                  Inl e \<Rightarrow> Inl e
                | Inr out \<Rightarrow>
                    Inr (log_change clock (st\<lparr>merged_text := out\<rparr>) (S ''trading_exclusions'') []
                           (trading_block v) (S ''Added trading exclusions clause'')))))"

definition add_dry_docking :: "(nat \<Rightarrow> pystr) \<Rightarrow> merge_state \<Rightarrow> merge_state" where
  "add_dry_docking clock st =
     log_change clock (st\<lparr>merged_text := merged_text st @ dd_clause\<rparr>) (S ''dry_docking'') []
       dd_clause (S ''Added dry-docking clause'')"

text \<open>The summary block; the lines are numbered from 1.\<close>

definition summary_lines :: "change list \<Rightarrow> pystr" where
  "summary_lines cs =
     concat (map (\<lambda>(i, c). str_nat i @ S ''. '' @ description c @ [newline])
                 (zip [1 ..< length cs + 1] cs))"

definition summary_section :: "change list \<Rightarrow> pystr" where
  "summary_section cs =
     [newline, newline] @ S ''=== SUMMARY OF CHANGES ==='' @ [newline] @
     (if cs \<noteq> [] then
        S ''The following modifications were made to the base Charter Party:'' @
        [newline, newline] @ summary_lines cs @ [newline] @ S ''=== END SUMMARY ==='' @ [newline]
      else
        S ''No changes were made to the base Charter Party document.'' @ [newline] @
        S ''=== END SUMMARY ==='' @ [newline])"

text \<open>
  \<^verbatim>\<open>merge_documents\<close>.  It returns the merged text and the list \<^verbatim>\<open>changes\<close>; the
  tracker it has written to is returned with them.
\<close>

definition merge_documents ::
  "unicode_db \<Rightarrow> (nat \<Rightarrow> pystr) \<Rightarrow> pystr \<Rightarrow> (string \<rightharpoonup> pystr) \<Rightarrow> change_tracker \<Rightarrow>
     py_error + pystr \<times> change list \<times> change_tracker" where
  "merge_documents U clock base_cp_text recap_data change_tracker =
     (case apply_rules U clock merge_rules
             \<lparr>merged_text = base_cp_text, changes_local = [], tracker = change_tracker\<rparr> of
        Inl e \<Rightarrow> Inl e
      | Inr st1 \<Rightarrow>
          (case add_trading_exclusions U clock recap_data st1 of
             Inl e \<Rightarrow> Inl e
           | Inr st2 \<Rightarrow>
               (let st3 = add_dry_docking clock st2
                in Inr (merged_text st3 @ summary_section (changes_local st3),
                        changes_local st3, tracker st3))))"

text \<open>
  Words for stating what a rule does to a text: the occurrences of its pattern that
  \<^verbatim>\<open>re.sub\<close> visits (each with the text before it), the text after the last one, the
  string a replacement function returns, and the records that a run of calls of
  \<^verbatim>\<open>track_change\<close> appends, for a tracker that holds \<open>n\<close> records and a local list
  that holds \<open>k\<close>.
\<close>

definition computed :: "(pymatch \<Rightarrow> py_error + pystr) \<Rightarrow> pymatch \<Rightarrow> pystr" where
  "computed g m = (case g m of Inr new \<Rightarrow> new | Inl e \<Rightarrow> [])"

definition occurrences :: "unicode_db \<Rightarrow> merge_rule \<Rightarrow> pystr \<Rightarrow> (pystr \<times> pymatch) list" where
  "occurrences U rule s = finditer (r_pattern rule) (rule_flags U) False s"

definition remainder :: "unicode_db \<Rightarrow> merge_rule \<Rightarrow> pystr \<Rightarrow> pystr" where
  "remainder U rule s = after_last (r_pattern rule) (rule_flags U) False s"

fun logged :: "(nat \<Rightarrow> pystr) \<Rightarrow> pystr \<Rightarrow> pystr \<Rightarrow> nat \<Rightarrow> nat \<Rightarrow> (pystr \<times> pystr) list \<Rightarrow> change list" where
  "logged clock fld descr n k [] = []"
| "logged clock fld descr n k ((old, new) # xs) =
     \<lparr>id_c = n + 1, field = fld, old_value = old, new_value = new, description = descr,
      timestamp = clock k, ctype = determine_change_type old new\<rparr> #
     logged clock fld descr (n + 1) (k + 1) xs"

section \<open>Properties of the change tracker\<close>

lemma changes_track_change:
  "changes (snd (track_change self now fld old new descr)) =
     changes self @ [fst (track_change self now fld old new descr)]"
  by (simp add: track_change_def Let_def)

lemma id_track_change:
  "id_c (fst (track_change self now fld old new descr)) = length (changes self) + 1"
  by (simp add: track_change_def Let_def)

lemma ids_track_all:
  "map id_c (changes (track_all self as)) =
     map id_c (changes self) @
     [length (changes self) + 1 ..< length (changes self) + length as + 1]"
proof (induction as arbitrary: self)
  case Nil
  then show ?case by simp
next
  case (Cons a as)
  let ?n = "length (changes self)"
  let ?t = "snd (track_change self (c_now a) (c_field a) (c_old a) (c_new a) (c_descr a))"
  have len: "length (changes ?t) = Suc ?n"
    by (simp add: changes_track_change)
  have ids: "map id_c (changes ?t) = map id_c (changes self) @ [Suc ?n]"
    by (simp add: changes_track_change id_track_change)
  have up: "[Suc ?n ..< Suc (Suc (?n + length as))] = Suc ?n # [Suc (Suc ?n) ..< Suc (Suc (?n + length as))]"
    by (rule upt_conv_Cons) simp
  have "map id_c (changes (track_all self (a # as))) = map id_c (changes (track_all ?t as))"
    by simp
  also have "\<dots> = map id_c (changes ?t) @ [Suc (Suc ?n) ..< Suc (Suc (?n + length as))]"
    using Cons.IH [of ?t] by (simp add: len del: upt_Suc)
  also have "\<dots> = map id_c (changes self) @ [Suc ?n ..< Suc (Suc (?n + length as))]"
    by (simp only: ids up append_assoc append_Cons append_Nil)
  finally show ?case
    by (simp del: upt_Suc)
qed

lemma count_changes_additions_aux:
  "additions (foldl count_step st cs) = additions st + length (filter (\<lambda>c. ctype c = Addition) cs)"
  by (induction cs arbitrary: st) (auto simp: count_step_def Let_def)

lemma count_changes_modifications_aux:
  "modifications (foldl count_step st cs) =
     modifications st + length (filter (\<lambda>c. ctype c = Modification) cs)"
  by (induction cs arbitrary: st) (auto simp: count_step_def Let_def)

lemma count_changes_deletions_aux:
  "deletions (foldl count_step st cs) = deletions st + length (filter (\<lambda>c. ctype c = Deletion) cs)"
  by (induction cs arbitrary: st) (auto simp: count_step_def Let_def)

lemma count_changes_fields_aux:
  "fields_seen (foldl count_step st cs) = fields_seen st \<union> field ` set cs"
  by (induction cs arbitrary: st) (auto simp: count_step_def Let_def)

lemma count_changes_counts:
  "additions (count_changes cs) = count_of Addition cs"
  "modifications (count_changes cs) = count_of Modification cs"
  "deletions (count_changes cs) = count_of Deletion cs"
  "fields_seen (count_changes cs) = field ` set cs"
  by (simp_all add: count_changes_def count_of_def count_changes_additions_aux
      count_changes_modifications_aux count_changes_deletions_aux count_changes_fields_aux)

lemma summary_parts_spec:
  "S ''Document successfully merged with '' @ join (S '', '') (summary_parts st) @ S ''.'' =
     spec_sentence (additions st) (modifications st) (deletions st)"
  by (simp add: summary_parts_def spec_sentence_def)

lemma str_nat_digit: "n < 10 \<Longrightarrow> str_nat n = [48 + n]"
  by (simp add: str_nat.simps)

lemma track_all_fields:
  "map (\<lambda>c. (field c, old_value c, new_value c, description c, timestamp c))
       (changes (track_all self as)) =
   map (\<lambda>c. (field c, old_value c, new_value c, description c, timestamp c)) (changes self) @
   map (\<lambda>a. (c_field a, c_old a, c_new a, c_descr a, c_now a)) as"
  by (induction as arbitrary: self) (simp_all add: track_change_def Let_def)

text \<open>
  C3.  \<open>determine_change_type\<close> is a function of the two values alone, defined on every
  pair: an empty old value with a non-empty new one is an addition, a non-empty old value
  with an empty new one is a deletion, two different non-empty values are a modification,
  and equal values are no change.
\<close>

theorem determine_change_type_cases:
  "(old = [] \<and> new \<noteq> [] \<longrightarrow> determine_change_type old new = Addition) \<and>
   (old \<noteq> [] \<and> new = [] \<longrightarrow> determine_change_type old new = Deletion) \<and>
   (old \<noteq> [] \<and> new \<noteq> [] \<and> old \<noteq> new \<longrightarrow> determine_change_type old new = Modification) \<and>
   (old = new \<longrightarrow> determine_change_type old new = No_change)"
  by (auto simp: determine_change_type_def)

theorem determine_change_type_cases_witness:
  "determine_change_type [] (S ''x'') = Addition \<and>
   determine_change_type (S ''x'') [] = Deletion \<and>
   determine_change_type (S ''x'') (S ''y'') = Modification \<and>
   determine_change_type (S ''x'') (S ''x'') = No_change"
  using determine_change_type_cases [of "[]" "S ''x''"]
    determine_change_type_cases [of "S ''x''" "[]"]
    determine_change_type_cases [of "S ''x''" "S ''y''"]
    determine_change_type_cases [of "S ''x''" "S ''x''"]
  by (simp add: S_def)

text \<open>
  C4, as the claim states it: the summary of an empty change list would hold a count of
  zero for each type.  It holds no count at all: \<^verbatim>\<open>change_types\<close> is the empty
  dictionary, so looking up \<^verbatim>\<open>additions\<close> finds nothing.
\<close>

theorem generate_summary_empty_no_counts:
  "change_types (generate_summary [] []) ''additions'' \<noteq> Some 0"
  by (simp add: generate_summary_def)

text \<open>
  C4, amended.  For an empty change list \<open>generate_summary\<close> returns
  \<^verbatim>\<open>total_changes\<close> 0, an empty \<^verbatim>\<open>change_types\<close> dictionary (no count is stored for
  any type), an empty \<^verbatim>\<open>fields_modified\<close>, the sentence
  \<^verbatim>\<open>No changes were made to the document.\<close> and no timestamp.
\<close>

theorem generate_summary_empty:
  "total_changes (generate_summary now []) = 0 \<and>
   change_types (generate_summary now []) = Map.empty \<and>
   fields_modified (generate_summary now []) = {} \<and>
   summary_text (generate_summary now []) = S ''No changes were made to the document.'' \<and>
   summary_timestamp (generate_summary now []) = None"
  by (simp add: generate_summary_def)

text \<open>
  C5.  After any sequence of \<open>N\<close> calls of \<open>track_change\<close> on a new tracker, the log
  holds \<open>N\<close> records, one per call and in the order of the calls, and their ids are
  \<open>1, 2, \<dots>, N\<close> in that order: no gap, no repeat, each id greater than all earlier
  ones.
\<close>

theorem track_change_ids:
  "length (changes (track_all init calls)) = length calls \<and>
   map id_c (changes (track_all init calls)) = [1 ..< length calls + 1] \<and>
   distinct (map id_c (changes (track_all init calls))) \<and>
   sorted_wrt (<) (map id_c (changes (track_all init calls))) \<and>
   map (\<lambda>c. (field c, old_value c, new_value c, description c, timestamp c))
       (changes (track_all init calls)) =
   map (\<lambda>a. (c_field a, c_old a, c_new a, c_descr a, c_now a)) calls"
proof -
  have ids: "map id_c (changes (track_all init calls)) = [1 ..< length calls + 1]"
    using ids_track_all [of init calls] by (simp add: init_def)
  have "length (map id_c (changes (track_all init calls))) = length calls"
    by (simp only: ids length_upt)
  then have len: "length (changes (track_all init calls)) = length calls"
    by simp
  have dist: "distinct (map id_c (changes (track_all init calls)))"
    by (simp only: ids distinct_upt)
  have sorted: "sorted_wrt (<) (map id_c (changes (track_all init calls)))"
    by (simp only: ids sorted_wrt_upt)
  have flds: "map (\<lambda>c. (field c, old_value c, new_value c, description c, timestamp c))
       (changes (track_all init calls)) =
     map (\<lambda>a. (c_field a, c_old a, c_new a, c_descr a, c_now a)) calls"
    using track_all_fields [of init calls] by (simp add: init_def)
  from len ids dist sorted flds show ?thesis
    by blast
qed

text \<open>
  C6.  For a non-empty change list \<open>generate_summary\<close> returns the length of the list
  as \<^verbatim>\<open>total_changes\<close>, the numbers of additions, modifications and deletions in it,
  and the sentence listing the non-zero ones of these numbers in that order, separated
  by commas.  A list of three records, two additions and one modification, gives
  \<^verbatim>\<open>Document successfully merged with 2 addition(s), 1 modification(s).\<close> and
  \<^verbatim>\<open>total_changes\<close> 3.
\<close>

theorem generate_summary_nonempty:
  "cs \<noteq> [] \<Longrightarrow>
   total_changes (generate_summary now cs) = length cs \<and>
   change_types (generate_summary now cs) =
     [''additions'' \<mapsto> count_of Addition cs,
      ''modifications'' \<mapsto> count_of Modification cs,
      ''deletions'' \<mapsto> count_of Deletion cs] \<and>
   summary_text (generate_summary now cs) =
     spec_sentence (count_of Addition cs) (count_of Modification cs) (count_of Deletion cs) \<and>
   (length cs = 3 \<and> count_of Addition cs = 2 \<and> count_of Modification cs = 1 \<and>
    count_of Deletion cs = 0 \<longrightarrow>
      summary_text (generate_summary now cs) =
        S ''Document successfully merged with 2 addition(s), 1 modification(s).'' \<and>
      total_changes (generate_summary now cs) = 3)"
proof -
  assume ne: "cs \<noteq> []"
  have total: "total_changes (generate_summary now cs) = length cs"
    using ne by (simp add: generate_summary_def Let_def)
  have types: "change_types (generate_summary now cs) =
           [''additions'' \<mapsto> count_of Addition cs,
            ''modifications'' \<mapsto> count_of Modification cs,
            ''deletions'' \<mapsto> count_of Deletion cs]"
    using ne by (simp add: generate_summary_def Let_def count_changes_counts)
  have sentence: "summary_text (generate_summary now cs) =
           spec_sentence (count_of Addition cs) (count_of Modification cs) (count_of Deletion cs)"
    using ne
    by (simp add: generate_summary_def Let_def summary_parts_spec count_changes_counts
        del: append_assoc)
  have "spec_sentence 2 1 0 =
      S ''Document successfully merged with 2 addition(s), 1 modification(s).''"
    by (simp add: spec_sentence_def str_nat_digit S_def)
  then have scenario: "length cs = 3 \<and> count_of Addition cs = 2 \<and> count_of Modification cs = 1 \<and>
         count_of Deletion cs = 0 \<longrightarrow>
           summary_text (generate_summary now cs) =
             S ''Document successfully merged with 2 addition(s), 1 modification(s).'' \<and>
           total_changes (generate_summary now cs) = 3"
    using total sentence by simp
  from total types sentence scenario show ?thesis
    by blast
qed

text \<open>
  The scenario of C6 on a log that \<open>track_change\<close> built: two additions and one
  modification.
\<close>

definition scenario_log :: "change list" where
  "scenario_log =
     changes (track_all init
       [\<lparr>c_now = [], c_field = S ''laycan'', c_old = [], c_new = S ''a'', c_descr = S ''first''\<rparr>,
        \<lparr>c_now = [], c_field = S ''dry_docking'', c_old = [], c_new = S ''b'', c_descr = S ''second''\<rparr>,
        \<lparr>c_now = [], c_field = S ''vessel_name'', c_old = S ''c'', c_new = S ''d'', c_descr = S ''third''\<rparr>])"

theorem generate_summary_nonempty_witness:
  "scenario_log \<noteq> [] \<and> length scenario_log = 3 \<and>
   count_of Addition scenario_log = 2 \<and> count_of Modification scenario_log = 1 \<and>
   count_of Deletion scenario_log = 0 \<and>
   summary_text (generate_summary [] scenario_log) =
     S ''Document successfully merged with 2 addition(s), 1 modification(s).'' \<and>
   total_changes (generate_summary [] scenario_log) = 3"
proof -
  have facts: "scenario_log \<noteq> []" "length scenario_log = 3"
    "count_of Addition scenario_log = 2" "count_of Modification scenario_log = 1"
    "count_of Deletion scenario_log = 0"
    by (simp_all add: scenario_log_def init_def track_change_def Let_def count_of_def
        determine_change_type_def S_def)
  show ?thesis
    using generate_summary_nonempty [OF facts(1), of "[]"] facts by blast
qed

section \<open>Properties of the merge\<close>

lemma length_logged: "length (logged clock fld descr n k xs) = length xs"
  by (induction xs arbitrary: n k) auto

lemma logged_fields:
  "map (\<lambda>c. (field c, old_value c, new_value c, description c)) (logged clock fld descr n k xs) =
     map (\<lambda>(old, new). (fld, old, new, descr)) xs"
  by (induction xs arbitrary: n k) auto

lemma log_change_eq:
  "log_change clock st fld old new descr =
     st\<lparr>changes_local := changes_local st @
            logged clock fld descr (length (changes (tracker st))) (length (changes_local st)) [(old, new)],
        tracker := (tracker st)\<lparr>changes := changes (tracker st) @
            logged clock fld descr (length (changes (tracker st))) (length (changes_local st)) [(old, new)]\<rparr>\<rparr>"
  by (simp add: log_change_def track_change_def Let_def)

lemma logged_append:
  "logged clock fld descr n k (xs @ ys) =
     logged clock fld descr n k xs @ logged clock fld descr (n + length xs) (k + length xs) ys"
  by (induction xs arbitrary: n k) auto

lemma foldl_log_change:
  "foldl (\<lambda>st (pre, m). log_change clock st fld (whole m) (h m) descr) st ms =
     st\<lparr>changes_local := changes_local st @
            logged clock fld descr (length (changes (tracker st))) (length (changes_local st))
              (map (\<lambda>(pre, m). (whole m, h m)) ms),
        tracker := (tracker st)\<lparr>changes := changes (tracker st) @
            logged clock fld descr (length (changes (tracker st))) (length (changes_local st))
              (map (\<lambda>(pre, m). (whole m, h m)) ms)\<rparr>\<rparr>"
proof (induction ms arbitrary: st)
  case Nil
  show ?case by simp
next
  case (Cons x ms)
  obtain pre m where x: "x = (pre, m)" by (cases x)
  show ?case
    by (simp add: x Cons.IH) (simp add: log_change_eq)
qed

lemma replace_func_eq:
  "replace_func clock rule g =
     (\<lambda>m st. case g m of Inl e \<Rightarrow> Inl e
              | Inr new \<Rightarrow> Inr (new, log_change clock st (r_field rule) (whole m) new (r_description rule)))"
  by (intro ext) (simp add: replace_func_def)

lemma apply_rule_computed:
  assumes rep: "r_replacement rule = Computed g"
    and ok: "\<And>m. must (r_pattern rule) \<subseteq> dom (groups m) \<Longrightarrow> g m = Inr (computed g m)"
  shows "apply_rule U clock rule st =
     Inr (st\<lparr>merged_text :=
               concat (map (\<lambda>(pre, m). pre @ computed g m) (occurrences U rule (merged_text st))) @
               remainder U rule (merged_text st),
             changes_local := changes_local st @
               logged clock (r_field rule) (r_description rule) (length (changes (tracker st)))
                 (length (changes_local st))
                 (map (\<lambda>(pre, m). (whole m, computed g m)) (occurrences U rule (merged_text st))),
             tracker := (tracker st)\<lparr>changes := changes (tracker st) @
               logged clock (r_field rule) (r_description rule) (length (changes (tracker st)))
                 (length (changes_local st))
                 (map (\<lambda>(pre, m). (whole m, computed g m)) (occurrences U rule (merged_text st)))\<rparr>\<rparr>)"
proof -
  have g: "\<And>pre m. (pre, m) \<in> set (finditer (r_pattern rule) (rule_flags U) False (merged_text st)) \<Longrightarrow>
             g m = Inr (computed g m)"
    by (rule ok) (rule finditer_groups)
  show ?thesis
    unfolding apply_rule_def rep replace_func_eq
    by (simp add: sub_loop_pure [of _ _ _ _ g "computed g", OF g] foldl_log_change
        occurrences_def remainder_def)
qed

lemma parse_template_plain:
  "backslash \<notin> set s \<Longrightarrow> parse_template g s = Inr (map TChar s)"
  by (induction s) (simp_all add: parse_template.simps add_part_def)

lemma expand_template_plain: "expand_template (map TChar s) m = s"
  by (induction s) (simp_all add: expand_template_def)

lemma re_sub_plain:
  assumes "backslash \<notin> set repl"
  shows "re_sub r fl repl s =
     Inr (concat (map (\<lambda>(pre, m). pre @ repl) (finditer r fl False s)) @ after_last r fl False s)"
proof -
  have "sub_loop r fl (\<lambda>m u. case Inr repl of Inl e \<Rightarrow> Inl e | Inr new \<Rightarrow> Inr (new, u)) False s () =
      Inr (concat (map (\<lambda>(pre, m). pre @ repl) (finditer r fl False s)) @ after_last r fl False s,
           foldl (\<lambda>u (pre, m). u) () (finditer r fl False s))"
    by (rule sub_loop_pure [where g = "\<lambda>m. Inr repl" and h = "\<lambda>m. repl" and upd = "\<lambda>m new u. u"]) simp
  then show ?thesis
    using assms by (simp add: re_sub_def parse_template_plain expand_template_plain)
qed

lemma apply_rule_fixed:
  assumes rep: "r_replacement rule = Fixed new_text" and plain: "backslash \<notin> set new_text"
  shows "apply_rule U clock rule st =
     (case re_search (r_pattern rule) (rule_flags U) (merged_text st) of
        None \<Rightarrow> Inr st
      | Some (pre, m, post) \<Rightarrow>
          Inr (st\<lparr>merged_text :=
                    concat (map (\<lambda>(pre, m). pre @ new_text) (occurrences U rule (merged_text st))) @
                    remainder U rule (merged_text st),
                  changes_local := changes_local st @
                    logged clock (r_field rule) (r_description rule) (length (changes (tracker st)))
                      (length (changes_local st)) [(whole m, new_text)],
                  tracker := (tracker st)\<lparr>changes := changes (tracker st) @
                    logged clock (r_field rule) (r_description rule) (length (changes (tracker st)))
                      (length (changes_local st)) [(whole m, new_text)]\<rparr>\<rparr>))"
  unfolding apply_rule_def rep
  by (simp add: re_sub_plain [OF plain] log_change_eq occurrences_def remainder_def
      split: option.splits)

lemmas pattern_defs =
  charter_date_pattern_def vessel_name_pattern_def owner_details_pattern_def
  charterer_details_pattern_def charter_period_pattern_def delivery_port_pattern_def
  laycan_pattern_def exclusion_pattern_def seq_def lits_def

lemma merge_rules_minlen: "rule \<in> set merge_rules \<Longrightarrow> 0 < minlen (r_pattern rule)"
  by (auto simp: merge_rules_def pattern_defs)

lemma charter_date_groups: "4 \<in> must charter_date_pattern"
  by (simp add: pattern_defs)

lemma computed_rules_ok:
  assumes "rule \<in> set merge_rules" and "r_replacement rule = Computed g"
    and "must (r_pattern rule) \<subseteq> dom (groups m)"
  shows "g m = Inr (computed g m)"
proof -
  from assms(1,2) consider
      "r_pattern rule = charter_date_pattern" "g = charter_date_replacement"
    | "g = vessel_name_replacement"
    | "g = charter_period_replacement"
    by (auto simp: merge_rules_def)
  then show ?thesis
  proof cases
    case 1
    with assms(3) charter_date_groups have "4 \<in> dom (groups m)"
      by auto
    then show ?thesis
      by (auto simp: 1 computed_def charter_date_replacement_def)
  next
    case 2
    then show ?thesis
      by (simp add: computed_def vessel_name_replacement_def)
  next
    case 3
    then show ?thesis
      by (simp add: computed_def charter_period_replacement_def)
  qed
qed

lemma fixed_rules_plain:
  assumes "rule \<in> set merge_rules" and "r_replacement rule = Fixed new_text"
  shows "backslash \<notin> set new_text"
proof -
  from assms consider "new_text = owner_details_text" | "new_text = charterer_details_text"
    | "new_text = delivery_port_text" | "new_text = laycan_text"
    by (auto simp: merge_rules_def)
  then show ?thesis
    by cases
      (simp_all add: owner_details_text_def charterer_details_text_def delivery_port_text_def
        laycan_text_def S_def backslash_def apostrophe_def e_acute_def en_dash_def)
qed

text \<open>
  Rules for running the matcher on a given text: each equation is used only where the
  text is visibly empty or visibly starts with a character.
\<close>

lemmas rm_nil = rm.simps [where s = "[]"]
lemmas rm_cons = rm.simps [where s = "t # ts" for t ts]
lemmas star_nil = star.simps [where s = "[]"] lstar.simps [where s = "[]"]
lemmas star_cons = star.simps [where s = "t # ts" for t ts] lstar.simps [where s = "t # ts" for t ts]
lemmas search_nil = search_from.simps [where s = "[]"]
lemmas search_cons = search_from.simps [where s = "t # ts" for t ts]
lemmas finditer_nil = finditer.simps [where s = "[]"] after_last.simps [where s = "[]"]
lemmas finditer_cons = finditer.simps [where s = "t # ts" for t ts]
  after_last.simps [where s = "t # ts" for t ts]

lemma rep_numeral:
  "rep (numeral n) f s c k = f s c (\<lambda>s' c'. rep (pred_numeral n) f s' c' k)"
  by (simp add: numeral_eq_Suc)

lemma rep_one: "rep 1 f s c k = f s c k"
  by simp

lemmas eval_defs =
  rm_nil rm_cons star_nil star_cons search_nil search_cons finditer_nil finditer_cons
  rep_numeral rep_one
  match_here_def one_def re_search_def rule_flags_def no_flags_def
  lit_match_def set_match_def lower_def is_cased_def extra_cases_def is_space_def
  is_digit_def is_word_def is_ascii_digit_def is_ascii_letter_def S_def
  newline_def dquote_def apostrophe_def backslash_def e_acute_def en_dash_def
  occurrences_def remainder_def computed_def fmt_group_def

lemma logged_field: "c \<in> set (logged clock fld descr n k xs) \<Longrightarrow> field c = fld"
  by (induction xs arbitrary: n k) auto

lemma apply_rule_result:
  assumes "rule \<in> set merge_rules"
  shows "\<exists>st' recs. apply_rule U clock rule st = Inr st' \<and>
           changes_local st' = changes_local st @ recs \<and> (\<forall>c \<in> set recs. field c = r_field rule)"
proof (cases "r_replacement rule")
  case (Fixed new_text)
  note eq = apply_rule_fixed [OF Fixed fixed_rules_plain [OF assms Fixed], where U = U and clock = clock and st = st]
  show ?thesis
  proof (cases "re_search (r_pattern rule) (rule_flags U) (merged_text st)")
    case None
    with eq have "apply_rule U clock rule st = Inr st"
      by simp
    then show ?thesis
      by (intro exI [of _ st] exI [of _ "[]"]) simp
  next
    case (Some x)
    obtain pre m post where "x = (pre, m, post)"
      by (cases x) auto
    with eq Some show ?thesis
      by (auto simp: determine_change_type_def)
  qed
next
  case (Computed g)
  note eq = apply_rule_computed [OF Computed computed_rules_ok [OF assms Computed], where U = U and clock = clock and st = st]
  show ?thesis
    by (simp add: eq) (auto dest: logged_field)
qed

lemma apply_rules_result:
  "set rules \<subseteq> set merge_rules \<Longrightarrow>
     \<exists>st' recs. apply_rules U clock rules st = Inr st' \<and>
        changes_local st' = changes_local st @ recs \<and> (\<forall>c \<in> set recs. field c \<in> r_field ` set rules)"
proof (induction rules arbitrary: st)
  case Nil
  show ?case by simp
next
  case (Cons rule rules)
  from Cons.prems have mem: "rule \<in> set merge_rules" and sub: "set rules \<subseteq> set merge_rules"
    by auto
  from apply_rule_result [OF mem, where U = U and clock = clock and st = st] obtain st1 recs1 where
    a: "apply_rule U clock rule st = Inr st1" and l1: "changes_local st1 = changes_local st @ recs1"
    and f1: "\<forall>c \<in> set recs1. field c = r_field rule"
    by blast
  from Cons.IH [OF sub, of st1] obtain st2 recs2 where
    b: "apply_rules U clock rules st1 = Inr st2" and l2: "changes_local st2 = changes_local st1 @ recs2"
    and f2: "\<forall>c \<in> set recs2. field c \<in> r_field ` set rules"
    by blast
  have "apply_rules U clock (rule # rules) st = Inr st2"
    by (simp add: a b)
  moreover have "changes_local st2 = changes_local st @ (recs1 @ recs2)"
    by (simp add: l1 l2)
  moreover have "\<forall>c \<in> set (recs1 @ recs2). field c \<in> r_field ` set (rule # rules)"
    using f1 f2 by auto
  ultimately show ?case
    by blast
qed

lemma apply_rules_append:
  "apply_rules U clock (xs @ ys) st =
     (case apply_rules U clock xs st of Inl e \<Rightarrow> Inl e | Inr st' \<Rightarrow> apply_rules U clock ys st')"
  by (induction xs arbitrary: st) (auto split: sum.splits)

lemma add_trading_exclusions_absent:
  "recap_data ''trading_exclusions'' = None \<Longrightarrow> add_trading_exclusions U clock recap_data st = Inr st"
  by (simp add: add_trading_exclusions_def)

lemma add_trading_exclusions_changes:
  "add_trading_exclusions U clock recap_data st = Inr st2 \<Longrightarrow>
     \<exists>more. changes_local st2 = changes_local st @ more"
  by (auto simp: add_trading_exclusions_def log_change_eq split: option.splits sum.splits)

lemma add_dry_docking_eq:
  "add_dry_docking clock st =
     st\<lparr>merged_text := merged_text st @ dd_clause,
        changes_local := changes_local st @
          logged clock (S ''dry_docking'') (S ''Added dry-docking clause'')
            (length (changes (tracker st))) (length (changes_local st)) [([], dd_clause)],
        tracker := (tracker st)\<lparr>changes := changes (tracker st) @
          logged clock (S ''dry_docking'') (S ''Added dry-docking clause'')
            (length (changes (tracker st))) (length (changes_local st)) [([], dd_clause)]\<rparr>\<rparr>"
  by (simp add: add_dry_docking_def log_change_eq)

text \<open>
  C7.  Take any rule of the rule list whose replacement is a function, say the rule at
  position \<open>i\<close>.  Whatever the base text, the field map and the tracker,
  \<open>merge_documents\<close> reaches that rule: the rules before it return a state \<open>st\<close>, whose
  text is the current text.  The rule returns; it replaces each of the non-overlapping
  occurrences of its pattern that \<^verbatim>\<open>re.sub\<close> visits in the current text, from left to
  right, by what the function returns for it, and keeps the text between them; for each
  occurrence, in order, it appends one record to the change list and to the tracker,
  whose old value is the matched text, whose new value is that replacement and whose
  field and description are the rule's.  The occurrences and the text between and after
  them make up the current text, no occurrence is empty, and the text after the last one
  holds no further match.  The rules after it return a state \<open>st_end\<close> from there, and
  what \<open>merge_documents\<close> returns is what the trading exclusions, the dry-docking clause
  and the summary make of \<open>st_end\<close>; when it returns, the change list it returns holds
  the records of the earlier rules, then these records, then the later ones; it can only
  raise when the field map has trading exclusions.
\<close>

theorem computed_rule_replaces_every_occurrence:
  assumes "i < length merge_rules" and "r_replacement (merge_rules ! i) = Computed g"
  shows "\<exists>st st' recs st_end.
     apply_rules U clock (take i merge_rules)
       \<lparr>merged_text = base_cp_text, changes_local = [], tracker = change_tracker\<rparr> = Inr st \<and>
     st' = st\<lparr>merged_text :=
                 concat (map (\<lambda>(pre, m). pre @ computed g m)
                   (occurrences U (merge_rules ! i) (merged_text st))) @
                 remainder U (merge_rules ! i) (merged_text st),
               changes_local := changes_local st @ recs,
               tracker := (tracker st)\<lparr>changes := changes (tracker st) @ recs\<rparr>\<rparr> \<and>
     apply_rule U clock (merge_rules ! i) st = Inr st' \<and>
     apply_rules U clock (drop (Suc i) merge_rules) st' = Inr st_end \<and>
     merge_documents U clock base_cp_text recap_data change_tracker =
       (case add_trading_exclusions U clock recap_data st_end of
          Inl e \<Rightarrow> Inl e
        | Inr st2 \<Rightarrow>
            Inr (merged_text (add_dry_docking clock st2) @
                   summary_section (changes_local (add_dry_docking clock st2)),
                 changes_local (add_dry_docking clock st2), tracker (add_dry_docking clock st2))) \<and>
     (case merge_documents U clock base_cp_text recap_data change_tracker of
        Inl e \<Rightarrow> recap_data ''trading_exclusions'' \<noteq> None
      | Inr (merged, cs, tr) \<Rightarrow> \<exists>later. cs = changes_local st @ recs @ later) \<and>
     map (\<lambda>c. (field c, old_value c, new_value c, description c)) recs =
       map (\<lambda>(pre, m). (r_field (merge_rules ! i), whole m, computed g m,
                          r_description (merge_rules ! i)))
         (occurrences U (merge_rules ! i) (merged_text st)) \<and>
     (\<forall>(pre, m) \<in> set (occurrences U (merge_rules ! i) (merged_text st)).
        g m = Inr (computed g m) \<and> whole m \<noteq> []) \<and>
     concat (map (\<lambda>(pre, m). pre @ whole m) (occurrences U (merge_rules ! i) (merged_text st))) @
       remainder U (merge_rules ! i) (merged_text st) = merged_text st \<and>
     re_search (r_pattern (merge_rules ! i)) (rule_flags U)
       (remainder U (merge_rules ! i) (merged_text st)) = None"
proof -
  let ?rule = "merge_rules ! i"
  let ?start = "\<lparr>merged_text = base_cp_text, changes_local = [], tracker = change_tracker\<rparr>"
  have mem: "?rule \<in> set merge_rules"
    using assms(1) by (rule nth_mem)
  have parts: "take i merge_rules @ ?rule # drop (Suc i) merge_rules = merge_rules"
    using assms(1) by (rule id_take_nth_drop [symmetric])
  have "set (take i merge_rules) \<subseteq> set merge_rules"
    by (rule set_take_subset)
  from apply_rules_result [OF this, where U = U and clock = clock and st = ?start]
  obtain st where before: "apply_rules U clock (take i merge_rules) ?start = Inr st"
    by blast
  let ?occ = "occurrences U ?rule (merged_text st)"
  let ?recs = "logged clock (r_field ?rule) (r_description ?rule) (length (changes (tracker st)))
                 (length (changes_local st)) (map (\<lambda>(pre, m). (whole m, computed g m)) ?occ)"
  let ?st' = "st\<lparr>merged_text :=
                 concat (map (\<lambda>(pre, m). pre @ computed g m) ?occ) @ remainder U ?rule (merged_text st),
               changes_local := changes_local st @ ?recs,
               tracker := (tracker st)\<lparr>changes := changes (tracker st) @ ?recs\<rparr>\<rparr>"
  note ok = computed_rules_ok [OF mem assms(2)]
  have run: "apply_rule U clock ?rule st = Inr ?st'"
    by (rule apply_rule_computed [OF assms(2) ok])
  have "set (drop (Suc i) merge_rules) \<subseteq> set merge_rules"
    by (rule set_drop_subset)
  from apply_rules_result [OF this, where U = U and clock = clock and st = ?st']
  obtain st_end recs2 where after: "apply_rules U clock (drop (Suc i) merge_rules) ?st' = Inr st_end"
    and later: "changes_local st_end = changes_local ?st' @ recs2"
    by blast
  have "apply_rules U clock (take i merge_rules @ ?rule # drop (Suc i) merge_rules) ?start = Inr st_end"
    by (simp add: apply_rules_append before run after)
  then have rules: "apply_rules U clock merge_rules ?start = Inr st_end"
    by (simp only: parts)
  have merge: "merge_documents U clock base_cp_text recap_data change_tracker =
       (case add_trading_exclusions U clock recap_data st_end of
          Inl e \<Rightarrow> Inl e
        | Inr st2 \<Rightarrow>
            Inr (merged_text (add_dry_docking clock st2) @
                   summary_section (changes_local (add_dry_docking clock st2)),
                 changes_local (add_dry_docking clock st2), tracker (add_dry_docking clock st2)))"
    by (simp add: merge_documents_def rules Let_def split: sum.splits)
  have returned: "case merge_documents U clock base_cp_text recap_data change_tracker of
        Inl e \<Rightarrow> recap_data ''trading_exclusions'' \<noteq> None
      | Inr (merged, cs, tr) \<Rightarrow> \<exists>later. cs = changes_local st @ ?recs @ later"
  proof (cases "add_trading_exclusions U clock recap_data st_end")
    case (Inl e)
    have "recap_data ''trading_exclusions'' \<noteq> None"
    proof
      assume "recap_data ''trading_exclusions'' = None"
      then have "add_trading_exclusions U clock recap_data st_end = Inr st_end"
        by (rule add_trading_exclusions_absent)
      with Inl show False
        by simp
    qed
    with Inl show ?thesis
      by (simp add: merge)
  next
    case (Inr st2)
    from add_trading_exclusions_changes [OF Inr] obtain more where
      "changes_local st2 = changes_local st_end @ more"
      by blast
    then have "changes_local (add_dry_docking clock st2) =
        changes_local st @ ?recs @ (recs2 @ more @
          logged clock (S ''dry_docking'') (S ''Added dry-docking clause'')
            (length (changes (tracker st2))) (length (changes_local st2)) [([], dd_clause)])"
      by (simp add: add_dry_docking_eq later)
    then show ?thesis
      by (simp only: merge Inr sum.case prod.case) (rule exI, rule refl)
  qed
  have recs: "map (\<lambda>c. (field c, old_value c, new_value c, description c)) ?recs =
       map (\<lambda>(pre, m). (r_field ?rule, whole m, computed g m, r_description ?rule)) ?occ"
    by (simp add: logged_fields split_def)
  have pos: "0 < minlen (r_pattern ?rule)"
    by (rule merge_rules_minlen [OF mem])
  have each: "\<forall>(pre, m) \<in> set ?occ. g m = Inr (computed g m) \<and> whole m \<noteq> []"
  proof (clarify, rule conjI)
    fix pre m assume occ: "(pre, m) \<in> set ?occ"
    then have "must (r_pattern ?rule) \<subseteq> dom (groups m)"
      unfolding occurrences_def by (rule finditer_groups)
    then show "g m = Inr (computed g m)"
      by (rule ok)
    from occ show "whole m \<noteq> []"
      unfolding occurrences_def by (rule finditer_nonempty [OF _ pos])
  qed
  have pieces: "concat (map (\<lambda>(pre, m). pre @ whole m) ?occ) @ remainder U ?rule (merged_text st) =
      merged_text st"
    unfolding occurrences_def remainder_def by (rule finditer_pieces)
  have nomore: "re_search (r_pattern ?rule) (rule_flags U) (remainder U ?rule (merged_text st)) = None"
    unfolding re_search_def remainder_def by (rule after_last_no_match [OF pos]) simp
  show ?thesis
    apply (rule exI [of _ st])
    apply (rule exI [of _ ?st'])
    apply (rule exI [of _ ?recs])
    apply (rule exI [of _ st_end])
    using before run after merge returned recs each pieces nomore
    apply (intro conjI)
             apply assumption
            apply (rule refl)
           apply assumption+
    done
qed


text \<open>A text with two vessel names, for the vessel name rule.\<close>

definition two_vessels :: pystr where
  "two_vessels = S ''Steamship/Motorship '' @ [dquote] @ S ''A'' @ [dquote] @
                 S '' and STEAMSHIP/MOTORSHIP  '' @ [dquote] @ S ''B C'' @ [dquote] @ S ''.''"

definition two_vessels_merged :: pystr where
  "two_vessels_merged = S ''Steamship/Motorship '' @ [dquote] @ S ''LUNAR STAR 1'' @ [dquote] @
                 S '' and STEAMSHIP/MOTORSHIP  '' @ [dquote] @ S ''LUNAR STAR 1'' @ [dquote] @ S ''.''"

lemmas sub_loop_nil = sub_loop.simps [where s = "[]"]
lemmas sub_loop_cons = sub_loop.simps [where s = "t # ts" for t ts]

lemmas merge_defs =
  merge_rules_def apply_rule_def replace_func_def sub_loop_nil sub_loop_cons

theorem computed_rule_replaces_every_occurrence_witness:
  "\<forall>U. 1 < length merge_rules \<and>
     r_replacement (merge_rules ! 1) = Computed vessel_name_replacement \<and>
     (case merge_documents U (\<lambda>n. []) two_vessels Map.empty init of
        Inl e \<Rightarrow> False
      | Inr (merged, cs, tr) \<Rightarrow>
          merged = two_vessels_merged @ dd_clause @ summary_section cs \<and>
          map (\<lambda>c. (field c, old_value c, new_value c, description c)) cs =
            [(S ''vessel_name'', S ''Steamship/Motorship '' @ [dquote] @ S ''A'' @ [dquote],
              S ''Steamship/Motorship '' @ [dquote] @ S ''LUNAR STAR 1'' @ [dquote],
              S ''Updated vessel name''),
             (S ''vessel_name'', S ''STEAMSHIP/MOTORSHIP  '' @ [dquote] @ S ''B C'' @ [dquote],
              S ''STEAMSHIP/MOTORSHIP  '' @ [dquote] @ S ''LUNAR STAR 1'' @ [dquote],
              S ''Updated vessel name''),
             (S ''dry_docking'', [], dd_clause, S ''Added dry-docking clause'')])"
proof (intro allI)
  fix U
  let ?clock = "\<lambda>n::nat. [] :: pystr"
  let ?start = "\<lparr>merged_text = two_vessels, changes_local = [], tracker = init\<rparr>"
  let ?g = vessel_name_replacement
  have len: "1 < length merge_rules"
    by (simp add: merge_rules_def)
  have rep: "r_replacement (merge_rules ! 1) = Computed ?g"
    by (simp add: merge_rules_def)
  have pat: "r_pattern (merge_rules ! 1) = vessel_name_pattern"
    "r_field (merge_rules ! 1) = S ''vessel_name''"
    "r_description (merge_rules ! 1) = S ''Updated vessel name''"
    by (simp_all add: merge_rules_def)
  from computed_rule_replaces_every_occurrence [OF len rep, where U = U and clock = ?clock
      and base_cp_text = two_vessels and recap_data = Map.empty and change_tracker = init]
  obtain st st' recs st_end where
    before: "apply_rules U ?clock (take 1 merge_rules) ?start = Inr st"
    and st': "st' = st\<lparr>merged_text :=
                 concat (map (\<lambda>(pre, m). pre @ computed ?g m)
                   (occurrences U (merge_rules ! 1) (merged_text st))) @
                 remainder U (merge_rules ! 1) (merged_text st),
               changes_local := changes_local st @ recs,
               tracker := (tracker st)\<lparr>changes := changes (tracker st) @ recs\<rparr>\<rparr>"
    and after: "apply_rules U ?clock (drop (Suc 1) merge_rules) st' = Inr st_end"
    and merge: "merge_documents U ?clock two_vessels Map.empty init =
       (case add_trading_exclusions U ?clock Map.empty st_end of
          Inl e \<Rightarrow> Inl e
        | Inr st2 \<Rightarrow>
            Inr (merged_text (add_dry_docking ?clock st2) @
                   summary_section (changes_local (add_dry_docking ?clock st2)),
                 changes_local (add_dry_docking ?clock st2), tracker (add_dry_docking ?clock st2)))"
    and recs: "map (\<lambda>c. (field c, old_value c, new_value c, description c)) recs =
       map (\<lambda>(pre, m). (r_field (merge_rules ! 1), whole m, computed ?g m,
                          r_description (merge_rules ! 1)))
         (occurrences U (merge_rules ! 1) (merged_text st))"
    by blast
  have "apply_rules U ?clock (take 1 merge_rules) ?start = Inr ?start"
    by (simp add: merge_defs eval_defs pattern_defs two_vessels_def del: rm.simps)
  with before have st: "st = ?start"
    by simp
  have occ: "map (\<lambda>(pre, m). (pre, whole m, computed ?g m)) (occurrences U (merge_rules ! 1) two_vessels) =
     [([], S ''Steamship/Motorship '' @ [dquote] @ S ''A'' @ [dquote],
           S ''Steamship/Motorship '' @ [dquote] @ S ''LUNAR STAR 1'' @ [dquote]),
      (S '' and '', S ''STEAMSHIP/MOTORSHIP  '' @ [dquote] @ S ''B C'' @ [dquote],
           S ''STEAMSHIP/MOTORSHIP  '' @ [dquote] @ S ''LUNAR STAR 1'' @ [dquote])]"
    unfolding occurrences_def pat
    by (simp add: eval_defs two_vessels_def pattern_defs vessel_name_replacement_def del: rm.simps)
  have rest: "remainder U (merge_rules ! 1) two_vessels = S ''.''"
    unfolding remainder_def pat
    by (simp add: eval_defs two_vessels_def pattern_defs del: rm.simps)
  have joined: "concat (map (\<lambda>(pre, m). pre @ computed ?g m) (occurrences U (merge_rules ! 1) two_vessels)) =
      concat (map (\<lambda>(pre, old, new). pre @ new)
        (map (\<lambda>(pre, m). (pre, whole m, computed ?g m)) (occurrences U (merge_rules ! 1) two_vessels)))"
    by (simp add: split_def comp_def)
  have flds: "map (\<lambda>(pre, m). (r_field (merge_rules ! 1), whole m, computed ?g m, r_description (merge_rules ! 1)))
        (occurrences U (merge_rules ! 1) two_vessels) =
      map (\<lambda>(pre, old, new). (r_field (merge_rules ! 1), old, new, r_description (merge_rules ! 1)))
        (map (\<lambda>(pre, m). (pre, whole m, computed ?g m)) (occurrences U (merge_rules ! 1) two_vessels))"
    by (simp add: split_def comp_def)
  have m: "merged_text ?start = two_vessels"
    by simp
  have new_text: "concat (map (\<lambda>(pre, m). pre @ computed ?g m)
          (occurrences U (merge_rules ! 1) two_vessels)) @ remainder U (merge_rules ! 1) two_vessels =
        two_vessels_merged"
    by (simp only: joined occ rest) (simp add: two_vessels_merged_def S_def)
  have st'_eq: "st' = \<lparr>merged_text = two_vessels_merged, changes_local = recs,
                        tracker = \<lparr>changes = recs\<rparr>\<rparr>"
    by (simp only: st' st m new_text) (simp add: init_def)
  have fields: "map (\<lambda>c. (field c, old_value c, new_value c, description c)) recs =
          [(S ''vessel_name'', S ''Steamship/Motorship '' @ [dquote] @ S ''A'' @ [dquote],
            S ''Steamship/Motorship '' @ [dquote] @ S ''LUNAR STAR 1'' @ [dquote],
            S ''Updated vessel name''),
           (S ''vessel_name'', S ''STEAMSHIP/MOTORSHIP  '' @ [dquote] @ S ''B C'' @ [dquote],
            S ''STEAMSHIP/MOTORSHIP  '' @ [dquote] @ S ''LUNAR STAR 1'' @ [dquote],
            S ''Updated vessel name'')]"
    by (simp only: recs st m flds occ) (simp only: pat, simp)
  have "apply_rules U ?clock (drop (Suc 1) merge_rules)
          \<lparr>merged_text = two_vessels_merged, changes_local = recs, tracker = \<lparr>changes = recs\<rparr>\<rparr> =
        Inr \<lparr>merged_text = two_vessels_merged, changes_local = recs, tracker = \<lparr>changes = recs\<rparr>\<rparr>"
    by (simp add: merge_defs eval_defs pattern_defs two_vessels_merged_def del: rm.simps)
  with after have st_end: "st_end = st'"
    by (simp add: st'_eq)
  have result: "merge_documents U ?clock two_vessels Map.empty init =
      Inr (merged_text (add_dry_docking ?clock st') @
             summary_section (changes_local (add_dry_docking ?clock st')),
           changes_local (add_dry_docking ?clock st'), tracker (add_dry_docking ?clock st'))"
    by (simp only: merge st_end) (simp add: add_trading_exclusions_absent)
  show "1 < length merge_rules \<and>
     r_replacement (merge_rules ! 1) = Computed vessel_name_replacement \<and>
     (case merge_documents U (\<lambda>n. []) two_vessels Map.empty init of
        Inl e \<Rightarrow> False
      | Inr (merged, cs, tr) \<Rightarrow>
          merged = two_vessels_merged @ dd_clause @ summary_section cs \<and>
          map (\<lambda>c. (field c, old_value c, new_value c, description c)) cs =
            [(S ''vessel_name'', S ''Steamship/Motorship '' @ [dquote] @ S ''A'' @ [dquote],
              S ''Steamship/Motorship '' @ [dquote] @ S ''LUNAR STAR 1'' @ [dquote],
              S ''Updated vessel name''),
             (S ''vessel_name'', S ''STEAMSHIP/MOTORSHIP  '' @ [dquote] @ S ''B C'' @ [dquote],
              S ''STEAMSHIP/MOTORSHIP  '' @ [dquote] @ S ''LUNAR STAR 1'' @ [dquote],
              S ''Updated vessel name''),
             (S ''dry_docking'', [], dd_clause, S ''Added dry-docking clause'')])"
    using len rep fields
    by (simp only: result sum.case prod.case) (simp add: add_dry_docking_eq st'_eq)
qed

section \<open>The merge does not depend on the clock\<close>

text \<open>
  A record without its timestamp, and what \<open>merge_documents\<close> returns or raises without
  the timestamps: the merged text, the returned change list and the log of the tracker.
\<close>

definition untimed :: "change \<Rightarrow> change" where
  "untimed c = c\<lparr>timestamp := []\<rparr>"

definition untimed_result ::
  "py_error + pystr \<times> change list \<times> change_tracker \<Rightarrow> py_error + pystr \<times> change list \<times> change list" where
  "untimed_result r =
     (case r of
        Inl e \<Rightarrow> Inl e
      | Inr (text, cs, tr) \<Rightarrow> Inr (text, map untimed cs, map untimed (changes tr)))"

text \<open>Two states of the merge that differ at most in the timestamps of their records.\<close>

definition same_but_time :: "merge_state \<Rightarrow> merge_state \<Rightarrow> bool" where
  "same_but_time a b =
     (merged_text a = merged_text b \<and>
      map untimed (changes_local a) = map untimed (changes_local b) \<and>
      map untimed (changes (tracker a)) = map untimed (changes (tracker b)))"

lemma untimed_logged:
  "map untimed (logged clock fld descr n k xs) = map untimed (logged clock' fld descr n k' xs)"
  by (induction xs arbitrary: n k k') (auto simp: untimed_def)

lemma same_but_time_lengths:
  assumes "same_but_time a b"
  shows "length (changes (tracker a)) = length (changes (tracker b))"
proof -
  from assms have "map untimed (changes (tracker a)) = map untimed (changes (tracker b))"
    by (simp add: same_but_time_def)
  then have "length (map untimed (changes (tracker a))) = length (map untimed (changes (tracker b)))"
    by simp
  then show ?thesis by simp
qed

lemma same_but_time_logged:
  assumes "same_but_time a b"
  shows "same_but_time
     (a\<lparr>merged_text := body,
        changes_local := changes_local a @
          logged clock1 fld descr (length (changes (tracker a))) (length (changes_local a)) xs,
        tracker := (tracker a)\<lparr>changes := changes (tracker a) @
          logged clock1 fld descr (length (changes (tracker a))) (length (changes_local a)) xs\<rparr>\<rparr>)
     (b\<lparr>merged_text := body,
        changes_local := changes_local b @
          logged clock2 fld descr (length (changes (tracker b))) (length (changes_local b)) xs,
        tracker := (tracker b)\<lparr>changes := changes (tracker b) @
          logged clock2 fld descr (length (changes (tracker b))) (length (changes_local b)) xs\<rparr>\<rparr>)"
proof -
  note len = same_but_time_lengths [OF assms]
  have "map untimed (logged clock1 fld descr (length (changes (tracker a))) (length (changes_local a)) xs) =
        map untimed (logged clock2 fld descr (length (changes (tracker b))) (length (changes_local b)) xs)"
    unfolding len by (rule untimed_logged)
  with assms show ?thesis
    by (simp add: same_but_time_def)
qed

lemma same_but_time_apply_rule:
  assumes mem: "rule \<in> set merge_rules" and same: "same_but_time a b"
  shows "\<exists>a' b'. apply_rule U clock1 rule a = Inr a' \<and> apply_rule U clock2 rule b = Inr b' \<and>
           same_but_time a' b'"
proof (cases "r_replacement rule")
  case (Fixed new_text)
  note plain = fixed_rules_plain [OF mem Fixed]
  note ea = apply_rule_fixed [OF Fixed plain, where U = U and clock = clock1 and st = a]
  note eb = apply_rule_fixed [OF Fixed plain, where U = U and clock = clock2 and st = b]
  from same have same_text: "merged_text b = merged_text a"
    by (simp add: same_but_time_def)
  show ?thesis
  proof (cases "re_search (r_pattern rule) (rule_flags U) (merged_text a)")
    case None
    with ea eb same_text same show ?thesis
      by simp
  next
    case (Some x)
    obtain pre m post where x: "x = (pre, m, post)"
      by (cases x) auto
    from same_but_time_logged [OF same, where ?clock1.0 = clock1 and ?clock2.0 = clock2 and fld = "r_field rule"
        and descr = "r_description rule" and xs = "[(whole m, new_text)]"]
    show ?thesis
      using ea eb by (simp add: same_text Some x)
  qed
next
  case (Computed g)
  note ok = computed_rules_ok [OF mem Computed]
  note ea = apply_rule_computed [OF Computed ok, where U = U and clock = clock1 and st = a]
  note eb = apply_rule_computed [OF Computed ok, where U = U and clock = clock2 and st = b]
  from same have same_text: "merged_text b = merged_text a"
    by (simp add: same_but_time_def)
  from same_but_time_logged [OF same, where ?clock1.0 = clock1 and ?clock2.0 = clock2 and fld = "r_field rule"
      and descr = "r_description rule"]
  show ?thesis
    using ea eb by (simp add: same_text)
qed

lemma same_but_time_apply_rules:
  "set rules \<subseteq> set merge_rules \<Longrightarrow> same_but_time a b \<Longrightarrow>
     \<exists>a' b'. apply_rules U clock1 rules a = Inr a' \<and> apply_rules U clock2 rules b = Inr b' \<and>
        same_but_time a' b'"
proof (induction rules arbitrary: a b)
  case Nil
  then show ?case by simp
next
  case (Cons rule rules)
  from Cons.prems have mem: "rule \<in> set merge_rules" and sub: "set rules \<subseteq> set merge_rules"
    by auto
  from same_but_time_apply_rule [OF mem Cons.prems(2), where ?clock1.0 = clock1 and ?clock2.0 = clock2 and U = U]
  obtain a1 b1 where
    "apply_rule U clock1 rule a = Inr a1" "apply_rule U clock2 rule b = Inr b1" "same_but_time a1 b1"
    by blast
  with Cons.IH [OF sub, of a1 b1] show ?case
    by simp
qed

lemma same_but_time_log_change:
  assumes "same_but_time a b"
  shows "same_but_time (log_change clock1 a fld old new descr) (log_change clock2 b fld old new descr)"
  using same_but_time_logged [OF assms, where body = "merged_text a" and ?clock1.0 = clock1
      and ?clock2.0 = clock2 and fld = fld and descr = descr and xs = "[(old, new)]"] assms
  by (simp add: log_change_eq same_but_time_def)

lemma same_but_time_trading:
  assumes "same_but_time a b"
  shows "(\<exists>e. add_trading_exclusions U clock1 recap_data a = Inl e \<and>
              add_trading_exclusions U clock2 recap_data b = Inl e) \<or>
         (\<exists>a' b'. add_trading_exclusions U clock1 recap_data a = Inr a' \<and>
              add_trading_exclusions U clock2 recap_data b = Inr b' \<and> same_but_time a' b')"
proof -
  from assms have same_text: "merged_text b = merged_text a"
    by (simp add: same_but_time_def)
  show ?thesis
  proof (cases "recap_data ''trading_exclusions''")
    case None
    with assms show ?thesis
      by (simp add: add_trading_exclusions_def)
  next
    case (Some v)
    show ?thesis
    proof (cases "re_search exclusion_pattern (no_flags U) (merged_text a)")
      case None
      with Some assms show ?thesis
        by (simp add: add_trading_exclusions_def same_text)
    next
      case found: (Some x)
      show ?thesis
      proof (cases "re_sub exclusion_pattern (no_flags U) ([backslash, ch CHR ''1''] @ trading_block v)
                      (merged_text a)")
        case (Inl e)
        with Some found show ?thesis
          by (simp add: add_trading_exclusions_def same_text)
      next
        case (Inr out)
        from assms have "same_but_time (a\<lparr>merged_text := out\<rparr>) (b\<lparr>merged_text := out\<rparr>)"
          by (simp add: same_but_time_def)
        from same_but_time_log_change [OF this, where ?clock1.0 = clock1 and ?clock2.0 = clock2]
        show ?thesis
          using Some found Inr by (simp add: add_trading_exclusions_def same_text)
      qed
    qed
  qed
qed

lemma summary_lines_untimed: "summary_lines (map untimed cs) = summary_lines cs"
  by (simp add: summary_lines_def zip_map2 split_def untimed_def comp_def)

lemma summary_section_untimed: "summary_section (map untimed cs) = summary_section cs"
  by (simp add: summary_section_def summary_lines_untimed)

text \<open>
  C8.  Two runs of \<open>merge_documents\<close> on the same base text and the same field map, each
  with a new tracker, under any two clocks: both raise the same error, or both return,
  with the same merged text and with change lists (the returned one and the tracker's)
  that are equal once the timestamps are removed.
\<close>

theorem merge_documents_deterministic:
  "untimed_result (merge_documents U clock1 base_cp_text recap_data init) =
   untimed_result (merge_documents U clock2 base_cp_text recap_data init)"
proof -
  let ?st = "\<lparr>merged_text = base_cp_text, changes_local = [], tracker = init\<rparr>"
  have "same_but_time ?st ?st"
    by (simp add: same_but_time_def)
  from same_but_time_apply_rules [OF subset_refl this, where ?clock1.0 = clock1 and ?clock2.0 = clock2 and U = U] obtain a1 b1 where
    a1: "apply_rules U clock1 merge_rules ?st = Inr a1" and b1: "apply_rules U clock2 merge_rules ?st = Inr b1"
    and s1: "same_but_time a1 b1"
    by blast
  from same_but_time_trading [OF s1, where ?clock1.0 = clock1 and ?clock2.0 = clock2 and recap_data = recap_data and U = U]
  show ?thesis
  proof (elim disjE exE conjE)
    fix e assume "add_trading_exclusions U clock1 recap_data a1 = Inl e"
      "add_trading_exclusions U clock2 recap_data b1 = Inl e"
    then show ?thesis
      by (simp add: merge_documents_def a1 b1 untimed_result_def)
  next
    fix a2 b2 assume a2: "add_trading_exclusions U clock1 recap_data a1 = Inr a2"
      and b2: "add_trading_exclusions U clock2 recap_data b1 = Inr b2" and s2: "same_but_time a2 b2"
    from s2 have "same_but_time (a2\<lparr>merged_text := merged_text a2 @ dd_clause\<rparr>)
      (b2\<lparr>merged_text := merged_text b2 @ dd_clause\<rparr>)"
      by (simp add: same_but_time_def)
    from same_but_time_log_change [OF this, where ?clock1.0 = clock1 and ?clock2.0 = clock2]
    have s3: "same_but_time (add_dry_docking clock1 a2) (add_dry_docking clock2 b2)"
      by (simp add: add_dry_docking_def)
    from s3 have cl: "map untimed (changes_local (add_dry_docking clock1 a2)) =
        map untimed (changes_local (add_dry_docking clock2 b2))"
      and tx: "merged_text (add_dry_docking clock1 a2) = merged_text (add_dry_docking clock2 b2)"
      and tr: "map untimed (changes (tracker (add_dry_docking clock1 a2))) =
        map untimed (changes (tracker (add_dry_docking clock2 b2)))"
      by (simp_all add: same_but_time_def)
    have "summary_section (changes_local (add_dry_docking clock1 a2)) =
        summary_section (map untimed (changes_local (add_dry_docking clock1 a2)))"
      by (rule summary_section_untimed [symmetric])
    also have "\<dots> = summary_section (map untimed (changes_local (add_dry_docking clock2 b2)))"
      by (simp only: cl)
    also have "\<dots> = summary_section (changes_local (add_dry_docking clock2 b2))"
      by (rule summary_section_untimed)
    finally have sum: "summary_section (changes_local (add_dry_docking clock1 a2)) =
        summary_section (changes_local (add_dry_docking clock2 b2))" .
    have r1: "merge_documents U clock1 base_cp_text recap_data init =
        Inr (merged_text (add_dry_docking clock1 a2) @
               summary_section (changes_local (add_dry_docking clock1 a2)),
             changes_local (add_dry_docking clock1 a2), tracker (add_dry_docking clock1 a2))"
      by (simp add: merge_documents_def a1 a2 Let_def)
    have r2: "merge_documents U clock2 base_cp_text recap_data init =
        Inr (merged_text (add_dry_docking clock2 b2) @
               summary_section (changes_local (add_dry_docking clock2 b2)),
             changes_local (add_dry_docking clock2 b2), tracker (add_dry_docking clock2 b2))"
      by (simp add: merge_documents_def b1 b2 Let_def)
    show ?thesis
      by (simp only: r1 r2 untimed_result_def sum.case prod.case cl tx tr sum)
  qed
qed

section \<open>The field map and the rules\<close>

lemma add_trading_exclusions_other_key:
  "k \<noteq> ''trading_exclusions'' \<Longrightarrow>
     add_trading_exclusions U clock (recap_data(k := x)) st = add_trading_exclusions U clock recap_data st"
  by (simp add: add_trading_exclusions_def)

lemma merge_documents_other_key:
  "k \<noteq> ''trading_exclusions'' \<Longrightarrow>
     merge_documents U clock base_cp_text (recap_data(k := x)) change_tracker =
     merge_documents U clock base_cp_text recap_data change_tracker"
  by (simp add: merge_documents_def add_trading_exclusions_other_key cong: sum.case_cong)

lemma rule_fields: "S ''trading_exclusions'' \<notin> r_field ` set merge_rules"
  by (simp add: merge_rules_def S_def)

lemma merge_documents_absent:
  assumes "recap_data ''trading_exclusions'' = None"
  shows "\<exists>st. apply_rules U clock merge_rules
             \<lparr>merged_text = base_cp_text, changes_local = [], tracker = change_tracker\<rparr> = Inr st \<and>
          merge_documents U clock base_cp_text recap_data change_tracker =
            Inr (merged_text st @ dd_clause @ summary_section (changes_local (add_dry_docking clock st)),
                 changes_local (add_dry_docking clock st), tracker (add_dry_docking clock st)) \<and>
          (\<forall>c \<in> set (changes_local (add_dry_docking clock st)). field c \<noteq> S ''trading_exclusions'')"
proof -
  let ?start = "\<lparr>merged_text = base_cp_text, changes_local = [], tracker = change_tracker\<rparr>"
  from apply_rules_result [OF subset_refl, where U = U and clock = clock and st = ?start]
  obtain st recs where run: "apply_rules U clock merge_rules ?start = Inr st"
    and cl: "changes_local st = changes_local ?start @ recs"
    and flds: "\<forall>c \<in> set recs. field c \<in> r_field ` set merge_rules"
    by blast
  have "merge_documents U clock base_cp_text recap_data change_tracker =
            Inr (merged_text st @ dd_clause @ summary_section (changes_local (add_dry_docking clock st)),
                 changes_local (add_dry_docking clock st), tracker (add_dry_docking clock st))"
    by (simp add: merge_documents_def run add_trading_exclusions_absent assms Let_def)
       (simp add: add_dry_docking_eq)
  moreover have "\<forall>c \<in> set (changes_local (add_dry_docking clock st)). field c \<noteq> S ''trading_exclusions''"
  proof
    fix c assume "c \<in> set (changes_local (add_dry_docking clock st))"
    then consider "c \<in> set recs" | "field c = S ''dry_docking''"
      by (auto simp: add_dry_docking_eq cl)
    then show "field c \<noteq> S ''trading_exclusions''"
    proof cases
      case 1
      with flds have "field c \<in> r_field ` set merge_rules"
        by blast
      with rule_fields show ?thesis
        by auto
    next
      case 2
      then show ?thesis
        by (simp add: S_def)
    qed
  qed
  ultimately show ?thesis
    using run by blast
qed

text \<open>
  C2, as the code has it.  The rules are applied to the base text whatever the field map
  holds: \<open>merge_documents\<close> reads the field map at the key \<^verbatim>\<open>trading_exclusions\<close> only.
  So for a field that is absent from the map: if it is another field than
  \<^verbatim>\<open>trading_exclusions\<close>, the merge does exactly what it does when the field is present,
  with any value (no rule is skipped for it, and it raises only if it raises with the
  field present); if it is \<^verbatim>\<open>trading_exclusions\<close>, the merge does not raise: the rules
  return a state, nothing is spliced into its text, the dry-docking clause and the summary
  are appended to it, and no record of the returned list has the field
  \<^verbatim>\<open>trading_exclusions\<close>.
\<close>

theorem absent_field:
  assumes "recap_data k = None"
  shows "(k \<noteq> ''trading_exclusions'' \<longrightarrow>
            (\<forall>v. merge_documents U clock base_cp_text (recap_data(k \<mapsto> v)) change_tracker =
                 merge_documents U clock base_cp_text recap_data change_tracker)) \<and>
         (k = ''trading_exclusions'' \<longrightarrow>
            (\<exists>st. apply_rules U clock merge_rules
                    \<lparr>merged_text = base_cp_text, changes_local = [], tracker = change_tracker\<rparr> = Inr st \<and>
                  merge_documents U clock base_cp_text recap_data change_tracker =
                    Inr (merged_text st @ dd_clause @
                           summary_section (changes_local (add_dry_docking clock st)),
                         changes_local (add_dry_docking clock st), tracker (add_dry_docking clock st)) \<and>
                  (\<forall>c \<in> set (changes_local (add_dry_docking clock st)).
                     field c \<noteq> S ''trading_exclusions'')))"
proof (intro conjI impI allI)
  fix v assume "k \<noteq> ''trading_exclusions''"
  then show "merge_documents U clock base_cp_text (recap_data(k \<mapsto> v)) change_tracker =
      merge_documents U clock base_cp_text recap_data change_tracker"
    by (rule merge_documents_other_key)
next
  assume "k = ''trading_exclusions''"
  with assms have "recap_data ''trading_exclusions'' = None"
    by simp
  then show "\<exists>st. apply_rules U clock merge_rules
                    \<lparr>merged_text = base_cp_text, changes_local = [], tracker = change_tracker\<rparr> = Inr st \<and>
                  merge_documents U clock base_cp_text recap_data change_tracker =
                    Inr (merged_text st @ dd_clause @
                           summary_section (changes_local (add_dry_docking clock st)),
                         changes_local (add_dry_docking clock st), tracker (add_dry_docking clock st)) \<and>
                  (\<forall>c \<in> set (changes_local (add_dry_docking clock st)).
                     field c \<noteq> S ''trading_exclusions'')"
    by (rule merge_documents_absent)
qed

text \<open>A base text with a vessel name, and the text the vessel name rule makes of it.\<close>

definition old_name_text :: pystr where
  "old_name_text = S ''Owners of the good Steamship/Motorship '' @ [dquote] @ S ''OCEAN PRIDE'' @
                   [dquote] @ S '' of Liberia''"

definition new_name_text :: pystr where
  "new_name_text = S ''Owners of the good Steamship/Motorship '' @ [dquote] @ S ''LUNAR STAR 1'' @
                   [dquote] @ S '' of Liberia''"

text \<open>
  The field map is empty, so the field \<^verbatim>\<open>vessel_name\<close> is absent from it; the vessel name
  rule is applied all the same: the name is replaced and a record is logged for it.
\<close>

theorem absent_field_rule_not_skipped:
  "\<forall>U. (Map.empty :: string \<rightharpoonup> pystr) ''vessel_name'' = None \<and>
     (case merge_documents U (\<lambda>n. []) old_name_text Map.empty init of
        Inl e \<Rightarrow> False
      | Inr (merged, cs, tr) \<Rightarrow>
          merged = new_name_text @ dd_clause @ summary_section cs \<and>
          map (\<lambda>c. (field c, old_value c, new_value c)) cs =
            [(S ''vessel_name'',
              S ''Steamship/Motorship '' @ [dquote] @ S ''OCEAN PRIDE'' @ [dquote],
              S ''Steamship/Motorship '' @ [dquote] @ S ''LUNAR STAR 1'' @ [dquote]),
             (S ''dry_docking'', [], dd_clause)])"
proof (intro allI)
  fix U
  have rules: "apply_rules U (\<lambda>n. []) merge_rules
        \<lparr>merged_text = old_name_text, changes_local = [], tracker = init\<rparr> =
      Inr \<lparr>merged_text = new_name_text,
           changes_local = logged (\<lambda>n. []) (S ''vessel_name'') (S ''Updated vessel name'') 0 0
             [(S ''Steamship/Motorship '' @ [dquote] @ S ''OCEAN PRIDE'' @ [dquote],
               S ''Steamship/Motorship '' @ [dquote] @ S ''LUNAR STAR 1'' @ [dquote])],
           tracker = \<lparr>changes = logged (\<lambda>n. []) (S ''vessel_name'') (S ''Updated vessel name'') 0 0
             [(S ''Steamship/Motorship '' @ [dquote] @ S ''OCEAN PRIDE'' @ [dquote],
               S ''Steamship/Motorship '' @ [dquote] @ S ''LUNAR STAR 1'' @ [dquote])]\<rparr>\<rparr>"
    by (simp add: merge_defs eval_defs pattern_defs old_name_text_def new_name_text_def
        vessel_name_replacement_def init_def log_change_eq del: rm.simps)
  show "(Map.empty :: string \<rightharpoonup> pystr) ''vessel_name'' = None \<and>
     (case merge_documents U (\<lambda>n. []) old_name_text Map.empty init of
        Inl e \<Rightarrow> False
      | Inr (merged, cs, tr) \<Rightarrow>
          merged = new_name_text @ dd_clause @ summary_section cs \<and>
          map (\<lambda>c. (field c, old_value c, new_value c)) cs =
            [(S ''vessel_name'',
              S ''Steamship/Motorship '' @ [dquote] @ S ''OCEAN PRIDE'' @ [dquote],
              S ''Steamship/Motorship '' @ [dquote] @ S ''LUNAR STAR 1'' @ [dquote]),
             (S ''dry_docking'', [], dd_clause)])"
    by (simp add: merge_documents_def rules add_trading_exclusions_absent add_dry_docking_eq Let_def)
qed

theorem absent_field_witness:
  "\<forall>U. ((Map.empty :: string \<rightharpoonup> pystr) ''vessel_name'' = None \<and>
         merge_documents U (\<lambda>n. []) old_name_text [''vessel_name'' \<mapsto> S ''OCEAN PRIDE''] init =
         merge_documents U (\<lambda>n. []) old_name_text Map.empty init) \<and>
        ([''vessel_name'' \<mapsto> S ''OCEAN PRIDE''] ''trading_exclusions'' = None \<and>
         (case merge_documents U (\<lambda>n. []) old_name_text [''vessel_name'' \<mapsto> S ''OCEAN PRIDE''] init of
            Inl e \<Rightarrow> False
          | Inr (merged, cs, tr) \<Rightarrow> list_all (\<lambda>c. field c \<noteq> S ''trading_exclusions'') cs))"
proof (intro allI conjI)
  fix U
  let ?fm = "[''vessel_name'' \<mapsto> S ''OCEAN PRIDE'']"
  show a: "(Map.empty :: string \<rightharpoonup> pystr) ''vessel_name'' = None"
    by simp
  show b: "?fm ''trading_exclusions'' = None"
    by simp
  from absent_field [where recap_data = Map.empty and k = "''vessel_name''" and U = U
      and clock = "\<lambda>n. []" and base_cp_text = old_name_text and change_tracker = init, OF a]
  show "merge_documents U (\<lambda>n. []) old_name_text ?fm init =
         merge_documents U (\<lambda>n. []) old_name_text Map.empty init"
    by simp
  from absent_field [where recap_data = ?fm and k = "''trading_exclusions''" and U = U
      and clock = "\<lambda>n. []" and base_cp_text = old_name_text and change_tracker = init, OF b]
  obtain st where
    "merge_documents U (\<lambda>n. []) old_name_text ?fm init =
       Inr (merged_text st @ dd_clause @ summary_section (changes_local (add_dry_docking (\<lambda>n. []) st)),
            changes_local (add_dry_docking (\<lambda>n. []) st), tracker (add_dry_docking (\<lambda>n. []) st))"
    and "\<forall>c \<in> set (changes_local (add_dry_docking (\<lambda>n. []) st)). field c \<noteq> S ''trading_exclusions''"
    by blast
  then show "case merge_documents U (\<lambda>n. []) old_name_text ?fm init of
            Inl e \<Rightarrow> False
          | Inr (merged, cs, tr) \<Rightarrow> list_all (\<lambda>c. field c \<noteq> S ''trading_exclusions'') cs"
    by (simp add: list_all_iff)
qed

section \<open>The dry-docking clause\<close>

text \<open>
  The sentence of the base text after which the trading exclusions are spliced in, and
  trading exclusions that hold a backslash.
\<close>

definition anchor_text :: pystr where
  "anchor_text = S ''as the Charterers or their Agents shall direct, on the following conditions:''"

definition exclusions_with_backslash :: pystr where
  "exclusions_with_backslash = S ''Iran and'' @ [backslash] @ S ''or Syria''"

lemmas template_defs =
  parse_template.simps add_part_def add_group_def escape_of_def is_octal_def digits_value_def
  expand_template_def trading_block_def

text \<open>
  C10.  The base text is the sentence after which the trading exclusions go, and the
  field map has the trading exclusions \<^verbatim>\<open>Iran and\or Syria\<close>.  \<^verbatim>\<open>re.sub\<close> reads the block
  as a replacement template, \<^verbatim>\<open>\o\<close> is not an escape it knows, and the merge raises
  \<^verbatim>\<open>re.error\<close>: no dry-docking clause is appended and nothing is returned.
\<close>

theorem trading_exclusions_backslash_raises:
  "\<forall>U. merge_documents U (\<lambda>n. []) anchor_text
          [''trading_exclusions'' \<mapsto> exclusions_with_backslash] init = Inl Template_error"
proof (intro allI)
  fix U
  let ?st = "\<lparr>merged_text = anchor_text, changes_local = [], tracker = init\<rparr>"
  have rules: "apply_rules U (\<lambda>n. []) merge_rules ?st = Inr ?st"
    by (simp add: merge_defs eval_defs pattern_defs anchor_text_def del: rm.simps)
  have found: "re_search exclusion_pattern (no_flags U) anchor_text = Some ([], \<lparr>whole = anchor_text, groups = [1 \<mapsto> anchor_text]\<rparr>, [])"
    by (simp add: eval_defs pattern_defs anchor_text_def del: rm.simps)
  have template: "parse_template (group_count exclusion_pattern)
        ([backslash, ch CHR ''1''] @ trading_block exclusions_with_backslash) = Inl Template_error"
    by (simp add: template_defs exclusions_with_backslash_def pattern_defs S_def backslash_def
        newline_def is_ascii_digit_def is_ascii_letter_def)
  show "merge_documents U (\<lambda>n. []) anchor_text
          [''trading_exclusions'' \<mapsto> exclusions_with_backslash] init = Inl Template_error"
    by (simp only: merge_documents_def rules sum.case add_trading_exclusions_def fun_upd_same
        option.case merge_state.select_convs found prod.case re_sub_def template)
qed


lemma dd_clause_nonempty: "dd_clause \<noteq> []"
  by (simp add: dd_clause_def)

text \<open>
  When the merge returns, the change list it returns ends with the record of the
  dry-docking clause, an addition, the merged text ends with that clause and the summary,
  and the summary lists the changes.
\<close>

lemma merge_documents_returns_dry_docking:
  assumes "merge_documents U clock base_cp_text recap_data change_tracker = Inr (merged, cs, tr)"
  shows "cs \<noteq> [] \<and> field (last cs) = S ''dry_docking'' \<and> old_value (last cs) = [] \<and>
         new_value (last cs) = dd_clause \<and> ctype (last cs) = Addition \<and>
         (\<exists>body. merged = body @ dd_clause @ summary_section cs) \<and>
         summary_section cs =
           [newline, newline] @ S ''=== SUMMARY OF CHANGES ==='' @ [newline] @
           S ''The following modifications were made to the base Charter Party:'' @
           [newline, newline] @ summary_lines cs @ [newline] @ S ''=== END SUMMARY ==='' @ [newline]"
proof -
  from assms obtain st1 st2 where
    "add_trading_exclusions U clock recap_data st1 = Inr st2"
    and res: "merged = merged_text (add_dry_docking clock st2) @
                summary_section (changes_local (add_dry_docking clock st2))"
      "cs = changes_local (add_dry_docking clock st2)"
    by (auto simp: merge_documents_def Let_def split: sum.splits)
  have cs: "cs = changes_local st2 @
      logged clock (S ''dry_docking'') (S ''Added dry-docking clause'')
        (length (changes (tracker st2))) (length (changes_local st2)) [([], dd_clause)]"
    by (simp add: res add_dry_docking_eq)
  then have ne: "cs \<noteq> []"
    by simp
  have "merged = merged_text st2 @ dd_clause @ summary_section cs"
    by (simp add: res add_dry_docking_eq)
  then have "\<exists>body. merged = body @ dd_clause @ summary_section cs" ..
  with ne show ?thesis
    by (simp add: cs determine_change_type_def dd_clause_nonempty summary_section_def)
qed

section \<open>Rules with a fixed replacement\<close>

text \<open>The sentence that the laycan rule looks for, and a base text that holds it twice.\<close>

definition laycan_anchor :: pystr where
  "laycan_anchor = S ''WOULD SUGGEST 1 (ONE) MONTH AFTER DIVER SURVEY TO BE CARRIED OUT IN YEOSU''"

definition two_laycans :: pystr where
  "two_laycans = laycan_anchor @ S ''; '' @ laycan_anchor"

text \<open>
  C1.  On a base text that holds the sentence of the laycan rule twice, the merge logs
  one record for the rule, with the first occurrence as old value, and replaces both
  occurrences.
\<close>

theorem fixed_rule_replaces_every_occurrence:
  "\<forall>U. (case merge_documents U (\<lambda>n. []) two_laycans Map.empty init of
        Inl e \<Rightarrow> False
      | Inr (merged, cs, tr) \<Rightarrow>
          merged = laycan_text @ S ''; '' @ laycan_text @ dd_clause @ summary_section cs \<and>
          map (\<lambda>c. (field c, old_value c, new_value c)) cs =
            [(S ''laycan'', laycan_anchor, laycan_text), (S ''dry_docking'', [], dd_clause)])"
proof (intro allI)
  fix U
  let ?st = "\<lparr>merged_text = two_laycans, changes_local = [], tracker = init\<rparr>"
  have plain: "92 \<notin> set laycan_text"
    by (simp add: laycan_text_def S_def en_dash_def)
  have rules: "apply_rules U (\<lambda>n. []) merge_rules ?st =
      Inr \<lparr>merged_text = laycan_text @ S ''; '' @ laycan_text,
           changes_local = logged (\<lambda>n. []) (S ''laycan'') (S ''Added laycan period'') 0 0
             [(laycan_anchor, laycan_text)],
           tracker = \<lparr>changes = logged (\<lambda>n. []) (S ''laycan'') (S ''Added laycan period'') 0 0
             [(laycan_anchor, laycan_text)]\<rparr>\<rparr>"
    by (simp add: merge_defs eval_defs pattern_defs two_laycans_def laycan_anchor_def
        re_sub_plain [unfolded backslash_def] plain
        owner_details_text_def charterer_details_text_def delivery_port_text_def
        init_def log_change_eq del: rm.simps)
  show "case merge_documents U (\<lambda>n. []) two_laycans Map.empty init of
        Inl e \<Rightarrow> False
      | Inr (merged, cs, tr) \<Rightarrow>
          merged = laycan_text @ S ''; '' @ laycan_text @ dd_clause @ summary_section cs \<and>
          map (\<lambda>c. (field c, old_value c, new_value c)) cs =
            [(S ''laycan'', laycan_anchor, laycan_text), (S ''dry_docking'', [], dd_clause)]"
    by (simp add: merge_documents_def rules add_trading_exclusions_absent add_dry_docking_eq Let_def)
qed

end
